theory Spec2Isabelle
  imports Complex_Main "HOL-Library.Sublist" "HOL-Library.Multiset"
begin

section \<open>Strings\<close>

text \<open>
  A JavaScript string is modelled as a \<^typ>\<open>string\<close>: each \<^typ>\<open>char\<close> stands for one
  code unit in the range 0..255 (ASCII and the Latin-1 supplement).  The helpers below are
  the String.prototype methods the acquisition code calls.
\<close>

definition startsWith :: "string \<Rightarrow> string \<Rightarrow> bool" where
  "startsWith s p = (take (length p) s = p)"

fun includes_str :: "string \<Rightarrow> string \<Rightarrow> bool" where
  "includes_str [] p = (p = [])"
| "includes_str (c # cs) p = (startsWith (c # cs) p \<or> includes_str cs p)"

definition is_space :: "char \<Rightarrow> bool" where
  \<comment> \<open>WhiteSpace and LineTerminator code units below 256: TAB, LF, VT, FF, CR, SP, NBSP.\<close>
  "is_space c = (c \<in> set [CHR 0x09, CHR 0x0A, CHR 0x0B, CHR 0x0C, CHR 0x0D, CHR 0x20, CHR 0xA0])"

definition trim :: "string \<Rightarrow> string" where
  "trim s = rev (dropWhile is_space (rev (dropWhile is_space s)))"

definition lower_char :: "char \<Rightarrow> char" where
  "lower_char c =
     (let n = (of_char c :: nat)
      in if (65 \<le> n \<and> n \<le> 90) \<or> (192 \<le> n \<and> n \<le> 222 \<and> n \<noteq> 215)
         then char_of (n + 32) else c)"

definition upper_char :: "char \<Rightarrow> char" where
  "upper_char c =
     (let n = (of_char c :: nat)
      in if (97 \<le> n \<and> n \<le> 122) \<or> (224 \<le> n \<and> n \<le> 254 \<and> n \<noteq> 247)
         then char_of (n - 32) else c)"

definition toLowerCase :: "string \<Rightarrow> string" where
  "toLowerCase s = map lower_char s"

section \<open>Regular expressions\<close>

text \<open>
  Every regular expression of the source is a sequence of greedily quantified character
  classes, with no alternation and no nested quantifier.  Such an expression is a list of
  items; the matcher below is the backtracking matcher of the language: an item first takes
  as many characters as it can and gives them back one at a time while the rest of the
  expression fails.  A successful match returns the text consumed by each item, from which
  the capture groups are read.
\<close>

datatype cclass = Among "char list" | Except "char list"

fun member_cc :: "cclass \<Rightarrow> char \<Rightarrow> bool" where
  "member_cc (Among cs) c = (c \<in> set cs)"
| "member_cc (Except cs) c = (c \<notin> set cs)"

datatype item = Item (cls: cclass) (lo: nat) (hi: "nat option")

definition lit :: "char \<Rightarrow> item" where
  "lit c = Item (Among [c]) 1 (Some 1)"

definition lit_i :: "char \<Rightarrow> item" where
  \<comment> \<open>a literal under the flag \<^verbatim>\<open>i\<close>\<close>
  "lit_i c = Item (Among [c, lower_char c, upper_char c]) 1 (Some 1)"

definition plus :: "cclass \<Rightarrow> item" where
  "plus cl = Item cl 1 None"

definition star :: "cclass \<Rightarrow> item" where
  "star cl = Item cl 0 None"

definition times :: "nat \<Rightarrow> cclass \<Rightarrow> item" where
  "times n cl = Item cl n (Some n)"

definition most :: "item \<Rightarrow> string \<Rightarrow> nat" where
  \<comment> \<open>the number of characters the item takes on its first, greedy attempt\<close>
  "most it s =
     (let n = length (takeWhile (member_cc (cls it)) s)
      in case hi it of None \<Rightarrow> n | Some h \<Rightarrow> min h n)"

fun greedy :: "(string \<Rightarrow> string list option) \<Rightarrow> nat \<Rightarrow> string \<Rightarrow> nat \<Rightarrow> string list option" where
  "greedy k l s 0 = (if l = 0 then map_option (Cons []) (k s) else None)"
| "greedy k l s (Suc n) =
     (if Suc n < l then None
      else case k (drop (Suc n) s) of
             Some ps \<Rightarrow> Some (take (Suc n) s # ps)
           | None \<Rightarrow> greedy k l s n)"

primrec match_here :: "item list \<Rightarrow> string \<Rightarrow> string list option" where
  "match_here [] s = Some []"
| "match_here (it # its) s = greedy (match_here its) (lo it) s (most it s)"

fun regex_match :: "item list \<Rightarrow> string \<Rightarrow> string list option" where
  \<comment> \<open>\<^verbatim>\<open>s.match(re)\<close> without the flag \<^verbatim>\<open>g\<close>: the match at the leftmost position that has one\<close>
  "regex_match re [] = match_here re []"
| "regex_match re (c # cs) =
     (case match_here re (c # cs) of
        Some ps \<Rightarrow> Some ps
      | None \<Rightarrow> regex_match re cs)"

text \<open>What a successful match guarantees about the text an item consumed.\<close>

definition fits :: "item \<Rightarrow> string \<Rightarrow> bool" where
  "fits it p = (list_all (member_cc (cls it)) p \<and> lo it \<le> length p
      \<and> (case hi it of None \<Rightarrow> True | Some h \<Rightarrow> length p \<le> h))"

definition digits :: "char list" where
  "digits = ''0123456789''"

definition letters :: "char list" where
  "letters = ''ABCDEFGHIJKLMNOPQRSTUVWXYZabcdefghijklmnopqrstuvwxyz''"

definition spaces :: "char list" where
  "spaces = [CHR 0x09, CHR 0x0A, CHR 0x0B, CHR 0x0C, CHR 0x0D, CHR 0x20, CHR 0xA0]"

section \<open>Change detector (storage module)\<close>

record article =
  id_str :: string
  title :: string
  url :: string

definition getNewArticles :: "article list \<Rightarrow> string set \<Rightarrow> article list" where
  \<comment> \<open>\<^verbatim>\<open>currentArticles.filter(article => !seenIds.has(article.id))\<close>\<close>
  "getNewArticles currentArticles seenIds = filter (\<lambda>a. id_str a \<notin> seenIds) currentArticles"

section \<open>Sessions and login (examMonitor module)\<close>

record session =
  cookie :: string
  expiry :: int

text \<open>
  The module state is the map \<^verbatim>\<open>userSessions\<close>; the clock \<^verbatim>\<open>Date.now()\<close> (milliseconds)
  is passed as \<open>now\<close>.
\<close>

type_synonym sessions = "string \<rightharpoonup> session"

definition ci_session_re :: "item list" where
  \<comment> \<open>\<^verbatim>\<open>/ci_session=([^;]+)/\<close>; group 1 is item 11\<close>
  "ci_session_re = map lit ''ci_session='' @ [plus (Except '';'')]"

fun extractCookies :: "int \<Rightarrow> string list \<Rightarrow> session option" where
  \<comment> \<open>the loop \<^verbatim>\<open>for (const cookie of cookies)\<close>\<close>
  "extractCookies now [] = None"
| "extractCookies now (c # cs) =
     (if startsWith c ''ci_session=''
      then (case regex_match ci_session_re c of
              Some ps \<Rightarrow> Some \<lparr>cookie = ps ! 11, expiry = now + 36000 * 1000\<rparr>
            | None \<Rightarrow> extractCookies now cs)
      else extractCookies now cs)"

definition extractSessionFromResponse :: "int \<Rightarrow> string list option \<Rightarrow> session option" where
  \<comment> \<open>the argument is \<^verbatim>\<open>response.headers['set-cookie']\<close>, \<open>None\<close> when the header is absent\<close>
  "extractSessionFromResponse now cookies =
     (case cookies of None \<Rightarrow> None | Some cs \<Rightarrow> extractCookies now cs)"

text \<open>
  What the login POST can come back with: a response (status and Set-Cookie headers), or no
  response at all (DNS failure, timeout, connection reset).  The request is sent with
  \<^verbatim>\<open>maxRedirects: 0\<close> and accepts the statuses 200..399; any other status rejects with the
  response attached to the error.
\<close>

datatype login_reply = LoginResponse int "string list option" | LoginNoResponse

definition login :: "int \<Rightarrow> login_reply \<Rightarrow> session option" where
  "login now r =
     (case r of
        LoginResponse status cookies \<Rightarrow>
          if 200 \<le> status \<and> status < 400 then extractSessionFromResponse now cookies
          else (case extractSessionFromResponse now cookies of
                  Some session \<Rightarrow> Some session
                | None \<Rightarrow> None)
      | LoginNoResponse \<Rightarrow> None)"

definition isSessionValid :: "sessions \<Rightarrow> int \<Rightarrow> string \<Rightarrow> bool" where
  "isSessionValid userSessions now userId =
     (case userSessions userId of
        None \<Rightarrow> False
      | Some s \<Rightarrow> now < expiry s - 5 * 60 * 1000)"

text \<open>
  An HTML text together with what the selectors of the parsing library find in it: the
  anchors of the document in document order, and the rows (each row the list of its
  \<^verbatim>\<open>td\<close> cells) of the first \<^verbatim>\<open>table.table\<close>, if there is one.
\<close>

record link =
  link_text :: string
  href :: "string option"

record cell =
  cell_text :: string
  cell_links :: "link list"

record html =
  source :: string
  anchors :: "link list"
  exam_table :: "cell list list option"

text \<open>
  What a response delivers as \<^verbatim>\<open>response.data\<close>.  The HTTP client parses a body that is
  JSON text, so the value is a text, given with what the parsing library finds in it, or a
  JSON value that is not a text.  Of such a value the module uses two things: whether it is
  truthy (\<^verbatim>\<open>null\<close>, \<^verbatim>\<open>false\<close> and \<^verbatim>\<open>0\<close> are not), and what the parsing library makes of it
  when it is asked to load it: a document, or an exception.
\<close>

datatype response_data = Text html | Json bool "html option"

definition falsy :: "response_data \<Rightarrow> bool" where
  \<comment> \<open>\<^verbatim>\<open>!data\<close>: the empty text, or a JSON value that is not truthy\<close>
  "falsy d = (case d of Text p \<Rightarrow> source p = [] | Json truthy loaded \<Rightarrow> \<not> truthy)"

datatype js_error = TypeError

definition load :: "response_data \<Rightarrow> js_error + html" where
  \<comment> \<open>\<^verbatim>\<open>cheerio.load(data)\<close>\<close>
  "load d =
     (case d of
        Text p \<Rightarrow> Inr p
      | Json truthy loaded \<Rightarrow> (case loaded of Some p \<Rightarrow> Inr p | None \<Rightarrow> Inl TypeError))"

text \<open>
  What the GET of the exam page can come back with, after at most 5 redirects: a final 2xx
  response (its resolved URL, if known, and its body), a response with another status, or
  no response.  The last two reject the request.
\<close>

datatype page_reply = PageResponse "string option" response_data | PageBadStatus int | PageNoResponse

definition fetchExamPage :: "page_reply \<Rightarrow> response_data option" where
  "fetchExamPage r =
     (case r of
        PageResponse responseUrl data \<Rightarrow>
          (case responseUrl of
             Some u \<Rightarrow> if u \<noteq> [] \<and> includes_str u ''/page/login'' then None else Some data
           | None \<Rightarrow> Some data)
      | PageBadStatus status \<Rightarrow> None
      | PageNoResponse \<Rightarrow> None)"

section \<open>Result document (examMonitor module)\<close>

text \<open>
  A JavaScript number that a decimal numeral can denote: not-a-number, a finite double
  (held as the rational it is) or infinity.  \<open>to_double\<close> rounds a non-negative rational
  to the nearest double, ties to the even significand, as reading a numeral does.
\<close>

datatype jsnum = NaN | Fin rat | PosInf

function bits :: "int \<Rightarrow> int" where
  \<comment> \<open>the length of the binary numeral of \<open>n\<close>\<close>
  "bits n = (if n \<le> 0 then 0 else 1 + bits (n div 2))"
  by pat_completeness auto
termination
  by (relation "measure nat") auto

definition pow2 :: "int \<Rightarrow> rat" where
  "pow2 e = (if 0 \<le> e then 2 ^ nat e else 1 / 2 ^ nat (- e))"

definition exponent_of :: "rat \<Rightarrow> int" where
  \<comment> \<open>for \<open>x > 0\<close>, the \<open>e\<close> with \<open>2^e \<le> x < 2^(e+1)\<close>\<close>
  "exponent_of x =
     (let (p, q) = quotient_of x
      in if q \<le> p then bits (p div q) - 1
         else (let k = bits (q div p)
               in if q \<le> p * 2 ^ nat (k - 1) then 1 - k else - k))"

definition round_half_even :: "rat \<Rightarrow> int" where
  "round_half_even q =
     (let f = \<lfloor>q\<rfloor>; d = q - of_int f
      in if d < 1 / 2 then f else if 1 / 2 < d then f + 1 else if even f then f else f + 1)"

definition to_double :: "rat \<Rightarrow> jsnum" where
  "to_double x =
     (if x = 0 then Fin 0
      else (let u = max (exponent_of x) (- 1022) - 52;
                r = of_int (round_half_even (x / pow2 u)) * pow2 u
            in if 1024 \<le> exponent_of r then PosInf else Fin r))"

definition digits_value :: "string \<Rightarrow> int" where
  "digits_value s = foldl (\<lambda>n c. 10 * n + (int (of_char c) - 48)) 0 s"

definition parseFloat :: "string \<Rightarrow> jsnum" where
  \<comment> \<open>on a text of digits and dots, all the third group of the subject pattern can hold: the
      longest leading numeral \<^verbatim>\<open>digits [. digits]\<close> or \<^verbatim>\<open>. digits\<close>, not-a-number without one\<close>
  "parseFloat s =
     (let ip = takeWhile (\<lambda>c. c \<in> set digits) s;
          r = dropWhile (\<lambda>c. c \<in> set digits) s;
          fp = (case r of
                  [] \<Rightarrow> []
                | c # r' \<Rightarrow> if c = CHR ''.'' then takeWhile (\<lambda>c. c \<in> set digits) r' else [])
      in if ip = [] \<and> fp = [] then NaN
         else to_double (of_int (digits_value (ip @ fp)) / 10 ^ length fp))"

fun num_ge :: "jsnum \<Rightarrow> rat \<Rightarrow> bool" where
  \<comment> \<open>\<^verbatim>\<open>x >= y\<close> for a finite \<open>y\<close>\<close>
  "num_ge NaN y = False"
| "num_ge (Fin x) y = (y \<le> x)"
| "num_ge PosInf y = True"

definition word_chars :: "char list" where
  \<comment> \<open>the class \<^verbatim>\<open>\w\<close>\<close>
  "word_chars = letters @ digits @ ''_''"

definition score_re :: "item list" where
  \<comment> \<open>\<^verbatim>\<open>/([\w\-]+[\w\s\-]+)\s*\(([A-Z0-9]+)\)\s*=\s*([\d.]+)/i\<close>: group 1 is items 0 and 1,
      group 2 item 4, group 3 item 9; under the flag \<^verbatim>\<open>i\<close> the class \<^verbatim>\<open>[A-Z0-9]\<close> also holds
      the small letters\<close>
  "score_re =
     [plus (Among (word_chars @ ''-'')), plus (Among (word_chars @ spaces @ ''-'')),
      star (Among spaces), lit CHR ''('', plus (Among (letters @ digits)), lit CHR '')'',
      star (Among spaces), lit CHR ''='', star (Among spaces), plus (Among (digits @ ''.''))]"

definition periode_re :: "item list" where
  \<comment> \<open>\<^verbatim>\<open>/Periode\s+([IVX]+)\s+Tahun\s+(\d{4})/i\<close>: group 1 is item 8, group 2 item 16\<close>
  "periode_re =
     map lit_i ''Periode'' @ [plus (Among spaces), plus (Among ''IVXivx''), plus (Among spaces)]
     @ map lit_i ''Tahun'' @ [plus (Among spaces), times 4 (Among digits)]"

section \<open>Exam table (examMonitor module)\<close>

record exam_result =
  rawText :: string
  subject :: "string option"
  subjectCode :: "string option"
  score :: "jsnum option"
  passed :: "bool option"
  periode_res :: "string option"

record action =
  action_text :: string
  action_link :: "string option"

record exam =
  kode :: string
  periode :: string
  kota :: string
  hasilUjian_text :: string
  hasilUjian_link :: "string option"
  status :: string
  actions :: "action list"
  result :: "exam_result option"

definition excludeActions :: "string list" where
  "excludeActions = [''detail'', ''cetak undangan'', ''cetak kartu ujian'']"

definition first_href :: "link list \<Rightarrow> string option" where
  \<comment> \<open>\<^verbatim>\<open>$(cell).find('a').attr('href') || null\<close>: the attribute of the first anchor, null when
      there is no anchor, no attribute or an empty one\<close>
  "first_href ls =
     (case ls of
        [] \<Rightarrow> None
      | l # _ \<Rightarrow> (case href l of None \<Rightarrow> None | Some h \<Rightarrow> if h = [] then None else Some h))"

fun keepActions :: "link list \<Rightarrow> action list" where
  \<comment> \<open>the loop over the anchors of the sixth cell\<close>
  "keepActions [] = []"
| "keepActions (l # ls) =
     (let text = trim (link_text l); lowerText = toLowerCase text
      in if \<not> list_ex (\<lambda>ex. includes_str lowerText ex) excludeActions
         then \<lparr>action_text = text, action_link = href l\<rparr> # keepActions ls
         else keepActions ls)"

definition parseRow :: "cell list \<Rightarrow> exam option" where
  \<comment> \<open>the body of the loop over the rows; \<open>None\<close> when the row pushes nothing\<close>
  "parseRow cells =
     (if 6 \<le> length cells
      then (let exam = \<lparr>kode = trim (cell_text (cells ! 0)),
                         periode = trim (cell_text (cells ! 1)),
                         kota = trim (cell_text (cells ! 2)),
                         hasilUjian_text = trim (cell_text (cells ! 3)),
                         hasilUjian_link = first_href (cell_links (cells ! 3)),
                         status = trim (cell_text (cells ! 4)),
                         actions = keepActions (cell_links (cells ! 5)),
                         result = None\<rparr>
            in if kode exam \<noteq> [] \<and> kode exam \<noteq> ''KODE'' then Some exam else None)
      else None)"

fun parseRows :: "cell list list \<Rightarrow> exam list" where
  "parseRows [] = []"
| "parseRows (cells # rows) =
     (case parseRow cells of
        Some exam \<Rightarrow> exam # parseRows rows
      | None \<Rightarrow> parseRows rows)"

definition parseExamTable :: "html \<Rightarrow> exam list" where
  "parseExamTable h = (case exam_table h of None \<Rightarrow> [] | Some rows \<Rightarrow> parseRows rows)"

text \<open>
  The reading of "the label contains the substring, case-insensitively" that the claims
  about the denylist are checked against: some stretch of the label equals the substring
  once both are put in lower case.
\<close>

definition contains_ci :: "string \<Rightarrow> string \<Rightarrow> bool" where
  "contains_ci label sub =
     (\<exists>pre mid post. label = pre @ mid @ post \<and> toLowerCase mid = toLowerCase sub)"

text \<open>A small exam page, used to run the parser: a header row, a short row and two exams.\<close>

definition plain_cell :: "string \<Rightarrow> cell" where
  "plain_cell t = \<lparr>cell_text = t, cell_links = []\<rparr>"

definition sample_rows :: "cell list list" where
  "sample_rows =
     [ map plain_cell [''KODE'', ''PERIODE'', ''KOTA'', ''HASIL UJIAN'', ''STATUS'', ''AKSI''],
       [plain_cell ''A70'', plain_cell ''Periode I 2024''],
       [ plain_cell '' CF2 '', plain_cell ''Periode III 2025'', plain_cell ''Jakarta'',
         \<lparr>cell_text = ''Lihat'', cell_links = [\<lparr>link_text = ''Lihat'', href = Some ''/exam/result/7''\<rparr>]\<rparr>,
         plain_cell ''Lulus'',
         \<lparr>cell_text = ''Detail Bayar Cetak Kartu Ujian'',
          cell_links = [\<lparr>link_text = '' Detail '', href = Some ''/exam/detail/7''\<rparr>,
                        \<lparr>link_text = ''Bayar'', href = Some ''/exam/pay/7''\<rparr>,
                        \<lparr>link_text = ''CETAK Kartu Ujian'', href = Some ''/exam/card/7''\<rparr>]\<rparr> ],
       [ plain_cell ''   '', plain_cell ''Periode III 2025'', plain_cell ''Bandung'',
         plain_cell ''-'', plain_cell ''Terdaftar'', plain_cell '''' ] ]"

definition sample_exam_page :: html where
  "sample_exam_page = \<lparr>source = ''<html><table class=table></table></html>'', anchors = [],
      exam_table = Some sample_rows\<rparr>"

definition sample_exam :: exam where
  "sample_exam =
     \<lparr>kode = ''CF2'', periode = ''Periode III 2025'', kota = ''Jakarta'',
      hasilUjian_text = ''Lihat'', hasilUjian_link = Some ''/exam/result/7'', status = ''Lulus'',
      actions = [\<lparr>action_text = ''Bayar'', action_link = Some ''/exam/pay/7''\<rparr>],
      result = None\<rparr>"

section \<open>Listing parser and backfill (scraper module)\<close>

definition news_detail_re :: "item list" where
  \<comment> \<open>\<^verbatim>\<open>/\/page\/news_detail\/(\d+)\//\<close>; group 1 is item 18\<close>
  "news_detail_re = map lit ''/page/news_detail/'' @ [plus (Among digits), lit CHR ''/'']"

definition selected :: "link \<Rightarrow> bool" where
  \<comment> \<open>the selector \<^verbatim>\<open>a[href*="/page/news_detail/"]\<close>\<close>
  "selected l = (case href l of None \<Rightarrow> False | Some h \<Rightarrow> includes_str h ''/page/news_detail/'')"

text \<open>
  A \<^verbatim>\<open>Map\<close> keyed by id is an association list in insertion order, the order in which
  \<^verbatim>\<open>values()\<close> lists it; \<^verbatim>\<open>set\<close> on a key already present replaces the value in place.
\<close>

type_synonym article_map = "(string \<times> article) list"

definition map_has :: "article_map \<Rightarrow> string \<Rightarrow> bool" where
  "map_has m k = (k \<in> fst ` set m)"

definition map_set :: "article_map \<Rightarrow> string \<Rightarrow> article \<Rightarrow> article_map" where
  "map_set m k v =
     (if map_has m k then map (\<lambda>(k', v'). if k' = k then (k', v) else (k', v')) m
      else m @ [(k, v)])"

definition map_values :: "article_map \<Rightarrow> article list" where
  "map_values m = map snd m"

fun eachAnchor :: "link list \<Rightarrow> article_map \<Rightarrow> article_map" where
  \<comment> \<open>the loop over the selected anchors; a selected anchor always has its \<^verbatim>\<open>href\<close>\<close>
  "eachAnchor [] articles = articles"
| "eachAnchor (element # rest) articles =
     (case href element of
        None \<Rightarrow> eachAnchor rest articles
      | Some h \<Rightarrow>
          (let text = trim (link_text element)
           in case regex_match news_detail_re h of
                Some ps \<Rightarrow>
                  if text \<noteq> []
                  then (let ident = ps ! 18
                        in if \<not> map_has articles ident
                           then eachAnchor rest
                                  (map_set articles ident
                                     \<lparr>id_str = ident, title = text,
                                      url = (if startsWith h ''http'' then h
                                             else ''https://www.aktuaris.or.id'' @ h)\<rparr>)
                           else eachAnchor rest articles)
                  else eachAnchor rest articles
              | None \<Rightarrow> eachAnchor rest articles))"

text \<open>
  \<^verbatim>\<open>parseInt\<close> returns a double: the double nearest to the number that the leading digits
  denote, which is that number itself only below \<open>2^53\<close>, and infinity from about 1.8e308.
  \<open>id_value\<close> is the number itself, the "numeric value of the id" of the specification.
\<close>

definition id_value :: "string \<Rightarrow> int" where
  "id_value s = digits_value (takeWhile (\<lambda>c. c \<in> set digits) s)"

definition parseInt :: "string \<Rightarrow> jsnum" where
  \<comment> \<open>on a text without leading white space or sign, as the ids are (runs of digits)\<close>
  "parseInt s =
     (let ds = takeWhile (\<lambda>c. c \<in> set digits) s
      in if ds = [] then NaN else to_double (of_int (digits_value ds)))"

definition safe_id :: "string \<Rightarrow> bool" where
  \<comment> \<open>the id is read exactly: its value is at most \<^verbatim>\<open>Number.MAX_SAFE_INTEGER\<close>\<close>
  "safe_id s = (id_value s < 2 ^ 53)"

fun num_le :: "jsnum \<Rightarrow> jsnum \<Rightarrow> bool" where
  \<comment> \<open>\<^verbatim>\<open>x <= y\<close>\<close>
  "num_le (Fin x) (Fin y) = (x \<le> y)"
| "num_le (Fin x) PosInf = True"
| "num_le PosInf PosInf = True"
| "num_le PosInf (Fin y) = False"
| "num_le NaN y = False"
| "num_le x NaN = False"

fun sign_of_difference :: "jsnum \<Rightarrow> jsnum \<Rightarrow> int" where
  \<comment> \<open>the sign of \<^verbatim>\<open>x - y\<close> as the sort reads it: the difference of two doubles is rounded to
      a double, which keeps its sign (it is zero only when the two are equal), and a
      difference that is not a number (infinity minus infinity) is read as \<open>+0\<close>\<close>
  "sign_of_difference (Fin x) (Fin y) = (if x < y then - 1 else if x = y then 0 else 1)"
| "sign_of_difference PosInf (Fin y) = 1"
| "sign_of_difference (Fin x) PosInf = - 1"
| "sign_of_difference x y = 0"

definition byIdDesc :: "article \<Rightarrow> article \<Rightarrow> int" where
  \<comment> \<open>\<^verbatim>\<open>(a, b) => parseInt(b.id) - parseInt(a.id)\<close>\<close>
  "byIdDesc a b = sign_of_difference (parseInt (id_str b)) (parseInt (id_str a))"

text \<open>
  \<^verbatim>\<open>Array.prototype.sort\<close> with a consistent comparison function returns the one stable
  arrangement of the array that the function orders; it is computed here by insertion.
\<close>

fun insert_by :: "('a \<Rightarrow> 'a \<Rightarrow> int) \<Rightarrow> 'a \<Rightarrow> 'a list \<Rightarrow> 'a list" where
  "insert_by cmp x [] = [x]"
| "insert_by cmp x (y # ys) = (if cmp x y \<le> 0 then x # y # ys else y # insert_by cmp x ys)"

definition array_sort :: "('a \<Rightarrow> 'a \<Rightarrow> int) \<Rightarrow> 'a list \<Rightarrow> 'a list" where
  "array_sort cmp xs = foldr (insert_by cmp) xs []"

definition parseArticles :: "html \<Rightarrow> article list" where
  "parseArticles h =
     array_sort byIdDesc (map_values (eachAnchor (filter selected (anchors h)) []))"

text \<open>
  The entry an anchor stands for, if it stands for one (its address matches and its text
  is not empty), and the entries of a page in document order, duplicates included.
\<close>

definition candidate :: "link \<Rightarrow> (string \<times> article) option" where
  "candidate l =
     (case href l of
        None \<Rightarrow> None
      | Some h \<Rightarrow>
          (case regex_match news_detail_re h of
             None \<Rightarrow> None
           | Some ps \<Rightarrow>
               if trim (link_text l) = [] then None
               else Some (ps ! 18,
                          \<lparr>id_str = ps ! 18, title = trim (link_text l),
                           url = (if startsWith h ''http'' then h
                                  else ''https://www.aktuaris.or.id'' @ h)\<rparr>)))"

definition candidates :: "html \<Rightarrow> (string \<times> article) list" where
  "candidates h = List.map_filter candidate (filter selected (anchors h))"
















definition safe_ids :: "html \<Rightarrow> bool" where
  \<comment> \<open>every id of the page is read exactly by \<^verbatim>\<open>parseInt\<close>\<close>
  "safe_ids h = list_all (\<lambda>(k, v). safe_id k) (candidates h)"

text \<open>Three listing pages, used to run the parser.\<close>

definition sample_news_page :: html where
  "sample_news_page =
     \<lparr>source = ''<html></html>'',
      anchors =
        [\<lparr>link_text = '' Ujian Periode III '', href = Some ''/page/news_detail/98/ujian-periode-iii''\<rparr>,
         \<lparr>link_text = ''Home'', href = Some ''/page/home''\<rparr>,
         \<lparr>link_text = ''Seminar'', href = Some ''https://www.aktuaris.or.id/page/news_detail/123/seminar''\<rparr>,
         \<lparr>link_text = ''  '', href = Some ''/page/news_detail/124/gambar''\<rparr>,
         \<lparr>link_text = ''Baca'', href = Some ''/page/news_detail/98/ujian-periode-iii''\<rparr>,
         \<lparr>link_text = ''Arsip'', href = Some ''/page/news_detail/arsip/''\<rparr>],
      exam_table = None\<rparr>"

definition leading_zero_page :: html where
  "leading_zero_page =
     \<lparr>source = ''<html></html>'',
      anchors =
        [\<lparr>link_text = ''Tujuh'', href = Some ''/page/news_detail/7/tujuh''\<rparr>,
         \<lparr>link_text = ''Nol tujuh'', href = Some ''/page/news_detail/07/nol-tujuh''\<rparr>],
      exam_table = None\<rparr>"


text \<open>Adding entries to a map, the first entry of an id winning.\<close>

fun addFirst :: "(string \<times> article) list \<Rightarrow> article_map \<Rightarrow> article_map" where
  "addFirst [] m = m"
| "addFirst ((k, v) # cs) m = (if map_has m k then addFirst cs m else addFirst cs (m @ [(k, v)]))"



text \<open>
  A network whose request number 10, the one for the offset 50, fails and whose next page
  has two entries.
\<close>

definition empty_page :: html where
  "empty_page = \<lparr>source = ''<html></html>'', anchors = [], exam_table = None\<rparr>"




declare bits.simps [simp del]

section \<open>Authenticated fetch (examMonitor module)\<close>

text \<open>
  The exam site as the module sees it: the reply to the \<open>k\<close>-th login POST (counted from
  0) for the credentials sent, the reply to the \<open>k\<close>-th GET of the exam page for the cookie
  sent, and the milliseconds that the \<open>n\<close>-th request of the run takes.  The world is the
  session map of the module, the clock, and the number of requests of each kind sent so
  far.
\<close>

record portal =
  login_reply_of :: "nat \<Rightarrow> string \<Rightarrow> string \<Rightarrow> login_reply"
  page_reply_of :: "nat \<Rightarrow> string \<Rightarrow> page_reply"
  elapsed :: "nat \<Rightarrow> nat"

record world =
  userSessions :: sessions
  clock :: int
  posts :: nat
  gets :: nat

definition login_io :: "portal \<Rightarrow> world \<Rightarrow> string \<Rightarrow> string \<Rightarrow> session option \<times> world" where
  \<comment> \<open>\<^verbatim>\<open>await login(email, password)\<close>: one POST, then the cookie is read at the time of the reply\<close>
  "login_io env w email password =
     (let w' = w\<lparr>posts := posts w + 1, clock := clock w + int (elapsed env (posts w + gets w))\<rparr>
      in (login (clock w') (login_reply_of env (posts w) email password), w'))"

definition getSession :: "portal \<Rightarrow> world \<Rightarrow> string \<Rightarrow> string \<Rightarrow> string \<Rightarrow> string option \<times> world" where
  "getSession env w uid email password =
     (if isSessionValid (userSessions w) (clock w) uid
      then (case userSessions w uid of Some s \<Rightarrow> (Some (cookie s), w) | None \<Rightarrow> (None, w))
      else (case login_io env w email password of
              (Some s, w') \<Rightarrow> (Some (cookie s), w'\<lparr>userSessions := (userSessions w')(uid \<mapsto> s)\<rparr>)
            | (None, w') \<Rightarrow> (None, w')))"

definition clearSession :: "world \<Rightarrow> string \<Rightarrow> world" where
  "clearSession w uid = w\<lparr>userSessions := (userSessions w)(uid := None)\<rparr>"

definition fetchExamPage_io :: "portal \<Rightarrow> world \<Rightarrow> string \<Rightarrow> response_data option \<times> world" where
  \<comment> \<open>\<^verbatim>\<open>await fetchExamPage(cookie)\<close>: one GET\<close>
  "fetchExamPage_io env w c =
     (let w' = w\<lparr>gets := gets w + 1, clock := clock w + int (elapsed env (posts w + gets w))\<rparr>
      in (fetchExamPage (page_reply_of env (gets w) c), w'))"

definition no_cookie :: "string option \<Rightarrow> bool" where
  \<comment> \<open>\<^verbatim>\<open>!cookie\<close>: null or the empty string\<close>
  "no_cookie c = (case c of None \<Rightarrow> True | Some s \<Rightarrow> s = [])"

definition no_html :: "response_data option \<Rightarrow> bool" where
  \<comment> \<open>\<^verbatim>\<open>!html\<close>: null (the fetch failed or ended on the login page) or a falsy body\<close>
  "no_html h = (case h of None \<Rightarrow> True | Some d \<Rightarrow> falsy d)"

text \<open>
  The call returns the list of exams or null, or it throws when the parsing library throws
  on the body (\<^verbatim>\<open>parseExamTable\<close> is called outside any \<^verbatim>\<open>try\<close>); \<open>parseExamTable\<close> above
  is the function from the loaded document on.
\<close>

definition fetchExamListForUser ::
    "portal \<Rightarrow> world \<Rightarrow> string \<Rightarrow> string \<Rightarrow> string \<Rightarrow> (js_error + exam list option) \<times> world" where
  "fetchExamListForUser env w uid email password =
     (case getSession env w uid email password of
        (c, w1) \<Rightarrow>
          if no_cookie c then (Inr None, w1)
          else (case fetchExamPage_io env w1 (the c) of
                  (page, w2) \<Rightarrow>
                    if no_html page
                    then (let w3 = clearSession w2 uid
                          in case getSession env w3 uid email password of
                               (newCookie, w4) \<Rightarrow>
                                 if no_cookie newCookie then (Inr None, w4)
                                 else (case fetchExamPage_io env w4 (the newCookie) of
                                         (retryHtml, w5) \<Rightarrow>
                                           if no_html retryHtml then (Inr None, w5)
                                           else (case load (the retryHtml) of
                                                   Inl e \<Rightarrow> (Inl e, w5)
                                                 | Inr h \<Rightarrow> (Inr (Some (parseExamTable h)), w5))))
                    else (case load (the page) of
                            Inl e \<Rightarrow> (Inl e, w2)
                          | Inr h \<Rightarrow> (Inr (Some (parseExamTable h)), w2))))"

text \<open>
  A site whose exam page always ends on the login page while every login succeeds, a world
  without sessions, and a world that holds a session still valid for user 42.
\<close>

definition redirects_to_login :: "page_reply \<Rightarrow> bool" where
  "redirects_to_login r =
     (case r of
        PageResponse (Some u) d \<Rightarrow> u \<noteq> [] \<and> includes_str u ''/page/login''
      | _ \<Rightarrow> False)"

definition denying_portal :: portal where
  "denying_portal =
     \<lparr>login_reply_of = (\<lambda>k email password. LoginResponse 302 (Some [''ci_session=s3cr3t; path=/''])),
      page_reply_of = (\<lambda>k c. PageResponse (Some ''https://www.aktuaris.or.id/page/login'') (Text empty_page)),
      elapsed = (\<lambda>n. 250)\<rparr>"

definition fresh_world :: world where
  "fresh_world = \<lparr>userSessions = Map.empty, clock = 1700000000000, posts = 0, gets = 0\<rparr>"

definition cached_world :: world where
  "cached_world =
     \<lparr>userSessions = [''42'' \<mapsto> \<lparr>cookie = ''0ldc00k13'', expiry = 1700000000000 + 36000 * 1000\<rparr>],
      clock = 1700000000000 + 60 * 1000, posts = 0, gets = 0\<rparr>"

text \<open>
  A site that answers the first GET of the exam page with the body \<^verbatim>\<open>null\<close> and the
  second with the sample page.
\<close>

definition null_first_portal :: portal where
  "null_first_portal =
     \<lparr>login_reply_of = (\<lambda>k email password. LoginResponse 302 (Some [''ci_session=s3cr3t; path=/''])),
      page_reply_of = (\<lambda>k c. PageResponse (Some ''https://www.aktuaris.or.id/exam/index'')
                                 (if k = 0 then Json False None else Text sample_exam_page)),
      elapsed = (\<lambda>n. 250)\<rparr>"

definition grants :: "login_reply \<Rightarrow> bool" where
  \<comment> \<open>the reply to a login carries the session cookie\<close>
  "grants r = (login 0 r \<noteq> None)"

text \<open>
  The extraction that \<^verbatim>\<open>fetchExamResultPdf\<close> runs on the text of the document, and the
  function itself: the download or the text extraction of the document library can fail,
  and then the result is null.
\<close>

definition parseResultText :: "string \<Rightarrow> exam_result" where
  "parseResultText text =
     (let result0 = \<lparr>rawText = text, subject = None, subjectCode = None, score = None,
                      passed = None, periode_res = None\<rparr>;
          result1 = (case regex_match score_re text of
                       Some ps \<Rightarrow>
                         result0\<lparr>subject := Some (trim (ps ! 0 @ ps ! 1)),
                                 subjectCode := Some (trim (ps ! 4)),
                                 score := Some (parseFloat (ps ! 9)),
                                 passed := Some (num_ge (parseFloat (ps ! 9)) 70)\<rparr>
                     | None \<Rightarrow> result0)
      in case regex_match periode_re text of
           Some ps \<Rightarrow> result1\<lparr>periode_res := Some (''Periode '' @ ps ! 8 @ '' '' @ ps ! 16)\<rparr>
         | None \<Rightarrow> result1)"

datatype pdf_reply = PdfText string | PdfFailure

definition fetchExamResultPdf :: "pdf_reply \<Rightarrow> exam_result option" where
  "fetchExamResultPdf r =
     (case r of PdfText text \<Rightarrow> Some (parseResultText text) | PdfFailure \<Rightarrow> None)"

subsection \<open>What a header carries\<close>

text \<open>
  \<open>stops it p r\<close>: the run \<open>p\<close> taken by the item \<open>it\<close> cannot be extended into the rest
  \<open>r\<close> of the text.

  \<open>carries c v\<close> states, without reference to the matcher, that the header value \<open>c\<close>
  names the cookie \<open>ci_session\<close> with the value \<open>v\<close>: \<open>c\<close> starts with \<open>ci_session=\<close>, and
  \<open>v\<close> is the longest run of characters other than the semicolon after the leftmost
  \<open>ci_session=\<close> of \<open>c\<close> that is followed by such a character.
\<close>

definition stops :: "item \<Rightarrow> string \<Rightarrow> string \<Rightarrow> bool" where
  "stops it p r = (hi it = Some (length p) \<or> r = [] \<or> \<not> member_cc (cls it) (hd r))"

definition carries :: "string \<Rightarrow> string \<Rightarrow> bool" where
  "carries c v =
     (startsWith c ''ci_session=''
      \<and> (\<exists>p rest. c = p @ ''ci_session='' @ v @ rest \<and> v \<noteq> [] \<and> CHR '';'' \<notin> set v
            \<and> (rest = [] \<or> hd rest = CHR '';'')
            \<and> (\<forall>p' x q. c = p' @ ''ci_session='' @ x # q \<and> x \<noteq> CHR '';''
                  \<longrightarrow> length p \<le> length p')))"

section \<open>Properties of the matcher\<close>

lemma greedy_first:
  "l \<le> n \<Longrightarrow> k (drop n s) = Some ps \<Longrightarrow> greedy k l s n = Some (take n s # ps)"
  by (cases n) auto

lemma greedy_Some:
  "greedy k l s n = Some ps \<Longrightarrow> \<exists>j qs. j \<le> n \<and> l \<le> j \<and> k (drop j s) = Some qs \<and> ps = take j s # qs"
proof (induction n)
  case 0
  then show ?case by (auto split: if_splits)
next
  case (Suc n)
  show ?case
  proof (cases "k (drop (Suc n) s)")
    case None
    with Suc.prems have "greedy k l s n = Some ps" by (simp split: if_splits)
    from Suc.IH [OF this] obtain j qs where
      "j \<le> n" "l \<le> j" "k (drop j s) = Some qs" "ps = take j s # qs" by blast
    then have "j \<le> Suc n \<and> l \<le> j \<and> k (drop j s) = Some qs \<and> ps = take j s # qs" by simp
    then show ?thesis by blast
  next
    case (Some qs)
    with Suc.prems show ?thesis by (auto split: if_splits)
  qed
qed

lemma greedy_None:
  "greedy k l s n = None \<Longrightarrow> j \<le> n \<Longrightarrow> l \<le> j \<Longrightarrow> k (drop j s) = None"
proof (induction n)
  case 0
  then show ?case by (auto split: if_splits)
next
  case (Suc n)
  then show ?case
    by (cases "j = Suc n") (auto split: if_splits option.splits)
qed

lemma most_le: "most it s \<le> length (takeWhile (member_cc (cls it)) s)"
  by (simp add: most_def Let_def split: option.splits)

lemma most_hi: "hi it = Some h \<Longrightarrow> most it s \<le> h"
  by (simp add: most_def Let_def)

lemma take_takeWhile_all:
  "j \<le> length (takeWhile P s) \<Longrightarrow> list_all P (take j s)"
  by (induction s arbitrary: j) (auto simp: take_Cons' split: if_splits)

lemma match_here_sound:
  "match_here its s = Some ps \<Longrightarrow> list_all2 fits its ps \<and> (\<exists>rest. s = concat ps @ rest)"
proof (induction its arbitrary: s ps)
  case Nil
  then show ?case by simp
next
  case (Cons it its)
  from Cons.prems have "greedy (match_here its) (lo it) s (most it s) = Some ps" by simp
  from greedy_Some [OF this] obtain j qs where
    j: "j \<le> most it s" "lo it \<le> j" and qs: "match_here its (drop j s) = Some qs"
    and ps: "ps = take j s # qs" by blast
  from Cons.IH [OF qs] obtain rest where
    all: "list_all2 fits its qs" and rest: "drop j s = concat qs @ rest" by blast
  have jl: "j \<le> length (takeWhile (member_cc (cls it)) s)"
    using j(1) most_le [of it s] by simp
  then have "j \<le> length s"
    using length_takeWhile_le [of "member_cc (cls it)" s] by simp
  then have len: "length (take j s) = j" by simp
  have "fits it (take j s)"
  proof -
    have a: "list_all (member_cc (cls it)) (take j s)"
      using take_takeWhile_all [OF jl] .
    have b: "lo it \<le> length (take j s)"
      using j(2) len by simp
    have c: "case hi it of None \<Rightarrow> True | Some h \<Rightarrow> length (take j s) \<le> h"
    proof (cases "hi it")
      case None
      then show ?thesis by simp
    next
      case (Some h)
      from most_hi [OF Some, of s] j(1) len show ?thesis using Some by simp
    qed
    show ?thesis unfolding fits_def using a b c by blast
  qed
  then have fit: "list_all2 fits (it # its) ps"
    using all ps by simp
  have "s = take j s @ drop j s" by simp
  also have "\<dots> = concat ps @ rest" unfolding ps rest by simp
  finally have "\<exists>rest. s = concat ps @ rest" by (rule exI)
  with fit show ?case by (rule conjI)
qed

lemma regex_match_sound:
  "regex_match re s = Some ps \<Longrightarrow>
     list_all2 fits re ps \<and> (\<exists>pre post. s = pre @ concat ps @ post)"
proof (induction s)
  case Nil
  from match_here_sound [of re "[]" ps] Nil show ?case by simp
next
  case (Cons c cs)
  show ?case
  proof (cases "match_here re (c # cs)")
    case None
    with Cons.prems have "regex_match re cs = Some ps" by simp
    from Cons.IH [OF this] obtain pre post where
      "list_all2 fits re ps" "cs = pre @ concat ps @ post" by blast
    then have "c # cs = (c # pre) @ concat ps @ post" by simp
    with \<open>list_all2 fits re ps\<close> show ?thesis by blast
  next
    case (Some qs)
    with Cons.prems have "match_here re (c # cs) = Some ps" by simp
    from match_here_sound [OF this] show ?thesis by (metis append_Nil)
  qed
qed

lemma match_here_lit_Cons:
  "match_here (lit c # its) (d # s) =
     (if d = c then map_option (Cons [c]) (match_here its s) else None)"
  by (auto simp: lit_def most_def split: option.splits)

lemma match_here_lit_Nil: "match_here (lit c # its) [] = None"
  by (simp add: lit_def most_def)

lemma regex_match_here:
  "match_here re s = Some ps \<Longrightarrow> regex_match re s = Some ps"
  by (cases s) auto

lemma takeWhile_run:
  "list_all P v \<Longrightarrow> rest = [] \<or> \<not> P (hd rest) \<Longrightarrow> takeWhile P (v @ rest) = v"
  by (induction v) (auto simp: neq_Nil_conv takeWhile_eq_Nil_iff)

lemma ci_session_value:
  assumes "v \<noteq> []" "CHR '';'' \<notin> set v" "rest = [] \<or> hd rest = CHR '';''"
  shows "regex_match ci_session_re (''ci_session='' @ v @ rest)
           = Some (map (\<lambda>c. [c]) ''ci_session='' @ [v])"
proof -
  have run: "takeWhile (member_cc (Except '';'')) (v @ rest) = v"
    using assms by (intro takeWhile_run) (auto simp: list_all_iff)
  have "Suc 0 \<le> length v" using assms(1) by (cases v) auto
  then have "greedy (match_here []) (Suc 0) (v @ rest) (length v) = Some (take (length v) (v @ rest) # [])"
    by (intro greedy_first) auto
  then have last: "match_here [plus (Except '';'')] (v @ rest) = Some [v]"
    by (simp add: plus_def most_def run)
  have "match_here ci_session_re (''ci_session='' @ v @ rest)
           = Some (map (\<lambda>c. [c]) ''ci_session='' @ [v])"
    by (simp add: ci_session_re_def match_here_lit_Cons last del: match_here.simps)
  then show ?thesis by (rule regex_match_here)
qed

lemma match_here_Cons_Some:
  assumes "match_here (it # its) s = Some ps"
  shows "\<exists>p ps' s'. ps = p # ps' \<and> s = p @ s' \<and> fits it p \<and> match_here its s' = Some ps'
           \<and> length p \<le> most it s"
proof -
  from assms have "greedy (match_here its) (lo it) s (most it s) = Some ps" by simp
  from greedy_Some [OF this] obtain j qs where
    j: "j \<le> most it s" "lo it \<le> j" and qs: "match_here its (drop j s) = Some qs"
    and ps: "ps = take j s # qs" by blast
  have jl: "j \<le> length (takeWhile (member_cc (cls it)) s)"
    using j(1) most_le [of it s] by simp
  then have "j \<le> length s"
    using length_takeWhile_le [of "member_cc (cls it)" s] by simp
  then have len: "length (take j s) = j" by simp
  have a: "list_all (member_cc (cls it)) (take j s)"
    using take_takeWhile_all [OF jl] .
  have c: "case hi it of None \<Rightarrow> True | Some h \<Rightarrow> length (take j s) \<le> h"
  proof (cases "hi it")
    case None
    then show ?thesis by simp
  next
    case (Some h)
    from most_hi [OF Some, of s] j(1) len show ?thesis using Some by simp
  qed
  have "fits it (take j s)" unfolding fits_def using a j(2) len c by simp
  moreover have "s = take j s @ drop j s" by simp
  ultimately show ?thesis using ps qs len j(1) by metis
qed

lemma length_takeWhile_ge:
  "list_all P p \<Longrightarrow> length p \<le> length (takeWhile P (p @ r))"
  by (induction p) auto

lemma match_here_complete:
  "list_all2 fits its ps \<Longrightarrow> match_here its (concat ps @ r) \<noteq> None"
proof (induction its arbitrary: ps r)
  case Nil
  then show ?case by simp
next
  case (Cons it its)
  from Cons.prems obtain p ps' where ps: "ps = p # ps'" and p: "fits it p"
    and rest: "list_all2 fits its ps'"
    by (auto simp: list_all2_Cons1)
  let ?s = "concat ps @ r"
  have s: "?s = p @ concat ps' @ r" by (simp add: ps)
  from p have all: "list_all (member_cc (cls it)) p" and lo: "lo it \<le> length p"
    by (simp_all add: fits_def)
  have "length p \<le> length (takeWhile (member_cc (cls it)) ?s)"
    unfolding s by (rule length_takeWhile_ge [OF all])
  moreover have "length p \<le> h" if "hi it = Some h" for h
    using p that by (simp add: fits_def)
  ultimately have m: "length p \<le> most it ?s"
    by (cases "hi it") (simp_all add: most_def Let_def)
  have d: "drop (length p) ?s = concat ps' @ r" by (simp add: s)
  show ?case
  proof
    assume "match_here (it # its) ?s = None"
    then have "greedy (match_here its) (lo it) ?s (most it ?s) = None" by simp
    from greedy_None [OF this m lo] have "match_here its (concat ps' @ r) = None"
      by (simp only: d)
    with Cons.IH [OF rest, of r] show False by simp
  qed
qed

lemma regex_match_None:
  "regex_match re (p @ t) = None \<Longrightarrow> match_here re t = None"
proof (induction p)
  case Nil
  then show ?case by (cases t) (auto split: option.splits)
next
  case (Cons c p)
  then show ?case by (auto split: option.splits)
qed

lemma regex_match_leftmost:
  "(\<And>p1 p2. p = p1 @ p2 \<Longrightarrow> p2 \<noteq> [] \<Longrightarrow> match_here re (p2 @ t) = None) \<Longrightarrow>
     regex_match re (p @ t) = regex_match re t"
proof (induction p)
  case Nil
  then show ?case by simp
next
  case (Cons c p)
  from Cons.prems [of "[]" "c # p"] have n: "match_here re (c # p @ t) = None" by simp
  have "regex_match re (p @ t) = regex_match re t"
  proof (rule Cons.IH)
    fix p1 p2 assume "p = p1 @ p2" "p2 \<noteq> []"
    with Cons.prems [of "c # p1" p2] show "match_here re (p2 @ t) = None" by simp
  qed
  with n show ?case by simp
qed

lemma regex_match_position:
  "regex_match re s = Some ps \<Longrightarrow>
     \<exists>p t. s = p @ t \<and> match_here re t = Some ps
       \<and> (\<forall>p1 p2. p = p1 @ p2 \<and> p2 \<noteq> [] \<longrightarrow> match_here re (p2 @ t) = None)"
proof (induction s)
  case Nil
  then have "match_here re [] = Some ps" by simp
  then show ?case by (intro exI [of _ "[]"]) simp
next
  case (Cons c s)
  show ?case
  proof (cases "match_here re (c # s)")
    case (Some qs)
    with Cons.prems have "match_here re (c # s) = Some ps" by simp
    then show ?thesis by (intro exI [of _ "[]"] exI [of _ "c # s"]) simp
  next
    case None
    with Cons.prems have "regex_match re s = Some ps" by simp
    from Cons.IH [OF this] obtain p t where pt: "s = p @ t" "match_here re t = Some ps"
      and lm: "\<forall>p1 p2. p = p1 @ p2 \<and> p2 \<noteq> [] \<longrightarrow> match_here re (p2 @ t) = None" by blast
    have "\<forall>p1 p2. c # p = p1 @ p2 \<and> p2 \<noteq> [] \<longrightarrow> match_here re (p2 @ t) = None"
    proof (intro allI impI, elim conjE)
      fix p1 p2 assume e: "c # p = p1 @ p2" and ne: "p2 \<noteq> []"
      show "match_here re (p2 @ t) = None"
      proof (cases p1)
        case Nil
        with e have "p2 @ t = c # s" using pt(1) by simp
        with None show ?thesis by simp
      next
        case (Cons d p1')
        with e have "p = p1' @ p2" by simp
        with lm ne show ?thesis by blast
      qed
    qed
    moreover have "c # s = (c # p) @ t" using pt(1) by simp
    ultimately show ?thesis using pt(2) by blast
  qed
qed

lemma match_here_stops:
  "match_here its s = Some ps \<Longrightarrow> its \<noteq> [] \<Longrightarrow>
     \<exists>r. s = concat ps @ r \<and> stops (last its) (last ps) r"
proof (induction its arbitrary: s ps)
  case Nil
  then show ?case by simp
next
  case (Cons it its)
  from match_here_Cons_Some [OF Cons.prems(1)] obtain p ps' s' where
    d: "ps = p # ps'" "s = p @ s'" "fits it p" "match_here its s' = Some ps'"
      "length p \<le> most it s" by blast
  show ?case
  proof (cases its)
    case Nil
    with d(4) have e: "ps' = []" by simp
    from Cons.prems(1) Nil have g: "greedy (match_here []) (lo it) s (most it s) = Some ps"
      by simp
    have "ps = [take (most it s) s]"
      using g by (cases "most it s") (auto split: if_splits)
    with d(1) e have p: "p = take (most it s) s" by simp
    have ml: "most it s \<le> length s"
      using most_le [of it s] length_takeWhile_le [of "member_cc (cls it)" s] by simp
    then have lp: "length p = most it s" by (simp add: p)
    have r: "s' = drop (most it s) s" using d(2) p by (metis append_eq_conv_conj lp)
    have "stops it p s'"
    proof (cases "hi it")
      case None
      then have "most it s = length (takeWhile (member_cc (cls it)) s)"
        by (simp add: most_def Let_def)
      then have "s' = dropWhile (member_cc (cls it)) s"
        using r by (metis dropWhile_eq_drop)
      then show ?thesis
        unfolding stops_def by (metis hd_dropWhile)
    next
      case (Some h)
      show ?thesis
      proof (cases "h \<le> length (takeWhile (member_cc (cls it)) s)")
        case True
        with Some have "most it s = h" by (simp add: most_def Let_def)
        with lp Some show ?thesis by (simp add: stops_def)
      next
        case False
        with Some have "most it s = length (takeWhile (member_cc (cls it)) s)"
          by (simp add: most_def Let_def)
        then have "s' = dropWhile (member_cc (cls it)) s"
          using r by (metis dropWhile_eq_drop)
        then show ?thesis
          unfolding stops_def by (metis hd_dropWhile)
      qed
    qed
    with d(1,2) e Nil show ?thesis by simp
  next
    case (Cons it' its')
    then have ne: "its \<noteq> []" by simp
    from Cons.IH [OF d(4) ne] obtain r where r: "s' = concat ps' @ r" "stops (last its) (last ps') r"
      by blast
    from d(4) Cons have "ps' \<noteq> []"
      using match_here_Cons_Some by blast
    with d(1,2) r ne show ?thesis by simp
  qed
qed

section \<open>Change detector\<close>

text \<open>
  Claim C4.  \<open>getNewArticles current seen\<close> is the subsequence of \<open>current\<close> made of the
  entries whose id is not in \<open>seen\<close>, in the order of \<open>current\<close>: it is a subsequence of
  \<open>current\<close>, it holds exactly the entries of \<open>current\<close> with an unseen id, no id of the
  result is in \<open>seen\<close>, and the function is a pure function of its two arguments whose
  second application to its own result changes nothing.
\<close>

theorem getNewArticles_delta:
  "getNewArticles current seen = filter (\<lambda>a. id_str a \<notin> seen) current
   \<and> subseq (getNewArticles current seen) current
   \<and> set (getNewArticles current seen) = set current - {a. id_str a \<in> seen}
   \<and> id_str ` set (getNewArticles current seen) \<inter> seen = {}
   \<and> getNewArticles (getNewArticles current seen) seen = getNewArticles current seen"
  by (auto simp: getNewArticles_def)

section \<open>Session store\<close>

lemma extractCookies_expiry:
  "extractCookies now cs = Some s \<Longrightarrow> expiry s = now + 36000 * 1000"
  by (induction cs) (auto split: if_splits option.splits)

lemma extractSession_expiry:
  "extractSessionFromResponse now hdrs = Some s \<Longrightarrow> expiry s = now + 36000 * 1000"
  by (auto simp: extractSessionFromResponse_def extractCookies_expiry split: option.splits)

text \<open>
  Claim C2.  A session is valid exactly when one is stored for the identity and the clock
  is strictly before its expiry minus 300000 ms (5 minutes); no stored session means
  invalid.  A session built by the authenticator at time \<open>t0\<close> (expiry \<open>t0\<close> + 36000 s)
  and stored is valid at every time \<open>t\<close> before \<open>t0\<close> + 36000 s - 300 s, in particular at
  \<open>t0\<close> itself, and invalid from then on.
\<close>

theorem isSessionValid_margin:
  "(isSessionValid store now uid
      \<longleftrightarrow> (\<exists>s. store uid = Some s \<and> now < expiry s - 300 * 1000))
   \<and> (store uid = None \<longrightarrow> \<not> isSessionValid store now uid)
   \<and> (extractSessionFromResponse t0 hdrs = Some s \<longrightarrow>
        isSessionValid (store(uid \<mapsto> s)) t0 uid
        \<and> (isSessionValid (store(uid \<mapsto> s)) t uid
             \<longleftrightarrow> t < t0 + 36000 * 1000 - 300 * 1000))"
  by (auto simp: isSessionValid_def dest!: extractSession_expiry split: option.splits)

theorem isSessionValid_margin_witness:
  "extractSessionFromResponse 1000 (Some [''ci_session=abc; path=/'']) = Some \<lparr>cookie = ''abc'', expiry = 36001000\<rparr>
   \<and> isSessionValid (Map.empty(''42'' \<mapsto> \<lparr>cookie = ''abc'', expiry = 36001000\<rparr>)) 1000 ''42''
   \<and> isSessionValid (Map.empty(''42'' \<mapsto> \<lparr>cookie = ''abc'', expiry = 36001000\<rparr>)) 35700999 ''42''
   \<and> \<not> isSessionValid (Map.empty(''42'' \<mapsto> \<lparr>cookie = ''abc'', expiry = 36001000\<rparr>)) 35701000 ''42''
   \<and> \<not> isSessionValid (Map.empty(''42'' \<mapsto> \<lparr>cookie = ''abc'', expiry = 36001000\<rparr>)) 1000 ''7''"
proof -
  have e: "extractSessionFromResponse 1000 (Some [''ci_session=abc; path=/''])
             = Some \<lparr>cookie = ''abc'', expiry = 36001000\<rparr>"
    using ci_session_value [of "''abc''" "''; path=/''"]
    by (simp add: extractSessionFromResponse_def startsWith_def)
  show ?thesis
    using e
      isSessionValid_margin [of "Map.empty(''42'' \<mapsto> \<lparr>cookie = ''abc'', expiry = 36001000\<rparr>)" 1000 "''7''"
         1000 "Some [''ci_session=abc; path=/'']" "\<lparr>cookie = ''abc'', expiry = 36001000\<rparr>" 35700999]
      isSessionValid_margin [of Map.empty 1000 "''42''"
         1000 "Some [''ci_session=abc; path=/'']" "\<lparr>cookie = ''abc'', expiry = 36001000\<rparr>" 35700999]
      isSessionValid_margin [of Map.empty 1000 "''42''"
         1000 "Some [''ci_session=abc; path=/'']" "\<lparr>cookie = ''abc'', expiry = 36001000\<rparr>" 35701000]
    by simp
qed

lemma extractCookies_skip:
  "\<forall>c\<in>set pre. \<not> startsWith c ''ci_session='' \<Longrightarrow>
     extractCookies now (pre @ cs) = extractCookies now cs"
  by (induction pre) auto

lemma extractCookies_source:
  "extractCookies now cs = Some s \<Longrightarrow>
     \<exists>c ps. c \<in> set cs \<and> startsWith c ''ci_session=''
        \<and> regex_match ci_session_re c = Some ps \<and> cookie s = ps ! 11"
  by (induction cs) (auto split: if_splits option.splits)

lemma fits_lit: "fits (lit c) p \<Longrightarrow> p = [c]"
  by (cases p) (auto simp: fits_def lit_def)

lemma fits_lits:
  "list_all2 fits (map lit s @ its) ps \<Longrightarrow>
     \<exists>qs. ps = map (\<lambda>c. [c]) s @ qs \<and> list_all2 fits its qs"
proof (induction s arbitrary: ps)
  case Nil
  then show ?case by simp
next
  case (Cons c s)
  from Cons.prems obtain p ps' where ps: "ps = p # ps'" and p: "fits (lit c) p"
    and rest: "list_all2 fits (map lit s @ its) ps'"
    by (auto simp: list_all2_Cons1)
  from Cons.IH [OF rest] obtain qs where "ps' = map (\<lambda>c. [c]) s @ qs" "list_all2 fits its qs"
    by blast
  with ps fits_lit [OF p] show ?case by simp
qed

lemma concat_singletons: "concat (map (\<lambda>c. [c]) s) = s"
  by (induction s) auto

lemma lits_plus_shape:
  assumes "regex_match (map lit s @ [plus cl]) c = Some ps"
  shows "\<exists>v pre post. ps = map (\<lambda>c. [c]) s @ [v] \<and> v \<noteq> [] \<and> list_all (member_cc cl) v
           \<and> c = pre @ s @ v @ post"
proof -
  from regex_match_sound [OF assms] obtain pre post where
    all: "list_all2 fits (map lit s @ [plus cl]) ps" and c: "c = pre @ concat ps @ post"
    by blast
  from fits_lits [OF all] obtain qs where
    qs: "ps = map (\<lambda>c. [c]) s @ qs" "list_all2 fits [plus cl] qs"
    by blast
  from qs(2) obtain v where v: "qs = [v]" "fits (plus cl) v"
    by (auto simp: list_all2_Cons1)
  from v(2) have v': "v \<noteq> []" "list_all (member_cc cl) v"
    by (auto simp: fits_def plus_def)
  have "concat ps = s @ v"
    unfolding qs(1) v(1) by (simp add: concat_singletons)
  with c have "c = pre @ s @ v @ post" by simp
  with qs(1) v(1) v' show ?thesis by blast
qed

lemma ci_session_shape:
  assumes "regex_match ci_session_re c = Some ps"
  shows "ps ! 11 \<noteq> [] \<and> CHR '';'' \<notin> set (ps ! 11)
         \<and> (\<exists>pre post. c = pre @ ''ci_session='' @ ps ! 11 @ post)"
proof -
  define s where "s = ''ci_session=''"
  have len: "length s = 11" by (simp add: s_def)
  from assms have "regex_match (map lit s @ [plus (Except '';'')]) c = Some ps"
    by (simp only: ci_session_re_def s_def)
  from lits_plus_shape [OF this] obtain v pre post where
    ps: "ps = map (\<lambda>c. [c]) s @ [v]" and v: "v \<noteq> []" "list_all (member_cc (Except '';'')) v"
    and c: "c = pre @ s @ v @ post" by blast
  have "ps ! length s = v"
    unfolding ps by (simp add: nth_append)
  then have nth: "ps ! 11 = v" by (simp only: len)
  from v(2) have "CHR '';'' \<notin> set v" by (auto simp: list_all_iff)
  moreover from c have "\<exists>pre post. c = pre @ s @ v @ post" by blast
  ultimately show ?thesis
    unfolding nth s_def using v(1) by blast
qed

lemma includes_str_iff: "includes_str s p \<longleftrightarrow> (\<exists>pre post. s = pre @ p @ post)"
proof (induction s)
  case Nil
  then show ?case by auto
next
  case (Cons c cs)
  have "startsWith (c # cs) p \<longleftrightarrow> (\<exists>post. c # cs = p @ post)"
    unfolding startsWith_def by (metis append_eq_conv_conj)
  moreover have "(\<exists>pre post. c # cs = pre @ p @ post)
      \<longleftrightarrow> (\<exists>post. c # cs = p @ post) \<or> (\<exists>pre post. cs = pre @ p @ post)"
  proof
    assume "\<exists>pre post. c # cs = pre @ p @ post"
    then obtain pre post where e: "c # cs = pre @ p @ post" by blast
    show "(\<exists>post. c # cs = p @ post) \<or> (\<exists>pre post. cs = pre @ p @ post)"
    proof (cases pre)
      case Nil
      with e show ?thesis by auto
    next
      case (Cons d pre')
      with e have "cs = pre' @ p @ post" by simp
      then show ?thesis by blast
    qed
  next
    assume "(\<exists>post. c # cs = p @ post) \<or> (\<exists>pre post. cs = pre @ p @ post)"
    then show "\<exists>pre post. c # cs = pre @ p @ post"
    proof
      assume "\<exists>post. c # cs = p @ post"
      then show ?thesis by (metis append_Nil)
    next
      assume "\<exists>pre post. cs = pre @ p @ post"
      then obtain pre post where "cs = pre @ p @ post" by blast
      then have "c # cs = (c # pre) @ p @ post" by simp
      then show ?thesis by blast
    qed
  qed
  ultimately show ?case using Cons.IH by simp
qed

lemma lits_plus_here:
  assumes "match_here (map lit s @ [plus cl]) t = Some ps"
  shows "\<exists>v r. ps = map (\<lambda>c. [c]) s @ [v] \<and> t = s @ v @ r
           \<and> v \<noteq> [] \<and> list_all (member_cc cl) v \<and> (r = [] \<or> \<not> member_cc cl (hd r))"
proof -
  from match_here_sound [OF assms] have all: "list_all2 fits (map lit s @ [plus cl]) ps"
    by simp
  from fits_lits [OF all] obtain qs where
    qs: "ps = map (\<lambda>c. [c]) s @ qs" "list_all2 fits [plus cl] qs" by blast
  from qs(2) obtain v where v: "qs = [v]" "fits (plus cl) v"
    by (auto simp: list_all2_Cons1)
  from v(2) have v': "v \<noteq> []" "list_all (member_cc cl) v"
    by (auto simp: fits_def plus_def)
  have lp: "last ps = v" by (simp add: qs(1) v(1))
  have "\<exists>r. t = concat ps @ r \<and> stops (last (map lit s @ [plus cl])) (last ps) r"
    using assms by (rule match_here_stops) simp
  then obtain r where r: "t = concat ps @ r" "stops (plus cl) v r"
    unfolding lp by auto
  have "concat ps = s @ v" unfolding qs(1) v(1) by (simp add: concat_singletons)
  with r(1) have t: "t = s @ v @ r" by simp
  from r(2) have "r = [] \<or> \<not> member_cc cl (hd r)"
    by (auto simp: stops_def plus_def)
  with qs(1) v(1) t v' show ?thesis by blast
qed

lemma ci_session_here:
  assumes "match_here ci_session_re t = Some ps"
  shows "\<exists>v r. ps = map (\<lambda>c. [c]) ''ci_session='' @ [v] \<and> t = ''ci_session='' @ v @ r
           \<and> v \<noteq> [] \<and> CHR '';'' \<notin> set v \<and> (r = [] \<or> hd r = CHR '';'')"
proof -
  define s where "s = ''ci_session=''"
  from assms have "match_here (map lit s @ [plus (Except '';'')]) t = Some ps"
    by (simp only: ci_session_re_def s_def)
  from lits_plus_here [OF this] obtain v r where
    ps: "ps = map (\<lambda>c. [c]) s @ [v]" and t: "t = s @ v @ r" and v: "v \<noteq> []"
      "list_all (member_cc (Except '';'')) v" and r: "r = [] \<or> \<not> member_cc (Except '';'') (hd r)"
    by blast
  from v(2) have "CHR '';'' \<notin> set v" by (auto simp: list_all_iff)
  moreover from r have "r = [] \<or> hd r = CHR '';''" by auto
  ultimately have "ps = map (\<lambda>c. [c]) s @ [v] \<and> t = s @ v @ r
           \<and> v \<noteq> [] \<and> CHR '';'' \<notin> set v \<and> (r = [] \<or> hd r = CHR '';'')"
    using ps t v(1) by simp
  then show ?thesis unfolding s_def by (intro exI)
qed

lemma ci_session_occurrence:
  assumes "x \<noteq> CHR '';''"
  shows "match_here ci_session_re (''ci_session='' @ x # q) \<noteq> None"
proof -
  have "list_all2 fits ci_session_re (map (\<lambda>c. [c]) ''ci_session='' @ [[x]])"
    using assms by (simp add: ci_session_re_def fits_def lit_def plus_def)
  from match_here_complete [OF this, of q] show ?thesis by simp
qed

lemma carries_iff:
  "carries c v \<longleftrightarrow>
     startsWith c ''ci_session='' \<and> (\<exists>ps. regex_match ci_session_re c = Some ps \<and> ps ! 11 = v)"
proof
  assume "carries c v"
  then obtain p rest where st: "startsWith c ''ci_session=''"
    and c: "c = p @ ''ci_session='' @ v @ rest" and v: "v \<noteq> []" "CHR '';'' \<notin> set v"
      "rest = [] \<or> hd rest = CHR '';''"
    and lm: "\<And>p' x q. c = p' @ ''ci_session='' @ x # q \<Longrightarrow> x \<noteq> CHR '';'' \<Longrightarrow> length p \<le> length p'"
    unfolding carries_def by blast
  let ?t = "''ci_session='' @ v @ rest"
  have "regex_match ci_session_re (p @ ?t) = regex_match ci_session_re ?t"
  proof (rule regex_match_leftmost)
    fix p1 p2 assume p: "p = p1 @ p2" and ne: "p2 \<noteq> []"
    show "match_here ci_session_re (p2 @ ?t) = None"
    proof (rule ccontr)
      assume "match_here ci_session_re (p2 @ ?t) \<noteq> None"
      then obtain ps where "match_here ci_session_re (p2 @ ?t) = Some ps" by blast
      from ci_session_here [OF this] obtain w r where
        w: "p2 @ ?t = ''ci_session='' @ w @ r" "w \<noteq> []" "CHR '';'' \<notin> set w" by blast
      from w(2) obtain x w' where x: "w = x # w'" by (cases w) auto
      with w(3) have "x \<noteq> CHR '';''" by auto
      moreover have "c = p1 @ ''ci_session='' @ x # (w' @ r)"
        using c p w(1) x by simp
      ultimately have "length p \<le> length p1" by (rule lm [rotated])
      with p ne show False by simp
    qed
  qed
  also have "\<dots> = Some (map (\<lambda>c. [c]) ''ci_session='' @ [v])"
    using v by (rule ci_session_value)
  finally have "regex_match ci_session_re c = Some (map (\<lambda>c. [c]) ''ci_session='' @ [v])"
    unfolding c .
  moreover have "(map (\<lambda>c. [c]) ''ci_session='' @ [v]) ! 11 = v" by simp
  ultimately show "startsWith c ''ci_session=''
      \<and> (\<exists>ps. regex_match ci_session_re c = Some ps \<and> ps ! 11 = v)"
    using st by blast
next
  assume "startsWith c ''ci_session=''
      \<and> (\<exists>ps. regex_match ci_session_re c = Some ps \<and> ps ! 11 = v)"
  then obtain ps where st: "startsWith c ''ci_session=''"
    and m: "regex_match ci_session_re c = Some ps" and n: "ps ! 11 = v" by blast
  from regex_match_position [OF m] obtain p t where pt: "c = p @ t"
    "match_here ci_session_re t = Some ps"
    and lm: "\<And>p1 p2. p = p1 @ p2 \<Longrightarrow> p2 \<noteq> [] \<Longrightarrow> match_here ci_session_re (p2 @ t) = None"
    by blast
  from ci_session_here [OF pt(2)] obtain w r where
    w: "ps = map (\<lambda>c. [c]) ''ci_session='' @ [w]" "t = ''ci_session='' @ w @ r" "w \<noteq> []"
      "CHR '';'' \<notin> set w" "r = [] \<or> hd r = CHR '';''" by blast
  have "ps ! 11 = w" by (simp add: w(1))
  with n have wv: "w = v" by simp
  have "length p \<le> length p'" if e: "c = p' @ ''ci_session='' @ x # q" and x: "x \<noteq> CHR '';''"
    for p' x q
  proof (rule ccontr)
    assume "\<not> length p \<le> length p'"
    then have l: "length p' < length p" by simp
    from e pt(1) have "p' @ (''ci_session='' @ x # q) = p @ t" by simp
    with l obtain p2 where p2: "p = p' @ p2" "''ci_session='' @ x # q = p2 @ t" "p2 \<noteq> []"
      by (auto simp: append_eq_append_conv2)
    from lm [OF p2(1) p2(3)] ci_session_occurrence [OF x, of q] p2(2) show False by simp
  qed
  with st pt(1) w wv show "carries c v"
    unfolding carries_def by blast
qed

lemma not_carries:
  "(\<forall>v. \<not> carries c v) \<longleftrightarrow> \<not> startsWith c ''ci_session='' \<or> regex_match ci_session_re c = None"
  unfolding carries_iff by (cases "regex_match ci_session_re c") auto

lemma extractCookies_pass:
  "\<forall>c\<in>set pre. \<forall>v. \<not> carries c v \<Longrightarrow> extractCookies now (pre @ cs) = extractCookies now cs"
proof (induction pre)
  case Nil
  then show ?case by simp
next
  case (Cons c pre)
  from Cons.prems have "\<forall>v. \<not> carries c v" by simp
  then have "\<not> startsWith c ''ci_session='' \<or> regex_match ci_session_re c = None"
    by (simp only: not_carries)
  with Cons show ?case by auto
qed

lemma extractCookies_carrier:
  assumes "carries c v"
  shows "extractCookies now (c # post) = Some \<lparr>cookie = v, expiry = now + 36000 * 1000\<rparr>"
proof -
  from assms obtain ps where "startsWith c ''ci_session=''"
    "regex_match ci_session_re c = Some ps" "ps ! 11 = v"
    unfolding carries_iff by blast
  then show ?thesis by simp
qed

lemma extractSession_none_carries:
  assumes "\<forall>c\<in>set hs. \<forall>v. \<not> carries c v"
  shows "extractSessionFromResponse now (Some hs) = None"
  using extractCookies_pass [OF assms, of now "[]"]
  by (simp add: extractSessionFromResponse_def)

lemma extractSession_first_carrier:
  assumes "\<forall>c\<in>set pre. \<forall>v. \<not> carries c v" "carries c v"
  shows "extractSessionFromResponse now (Some (pre @ c # post))
           = Some \<lparr>cookie = v, expiry = now + 36000 * 1000\<rparr>"
  using extractCookies_pass [OF assms(1), of now "c # post"] extractCookies_carrier [OF assms(2)]
  by (simp add: extractSessionFromResponse_def)

lemma carries_plain:
  assumes "v \<noteq> []" "CHR '';'' \<notin> set v" "rest = [] \<or> hd rest = CHR '';''"
  shows "carries (''ci_session='' @ v @ rest) v"
proof -
  have "regex_match ci_session_re (''ci_session='' @ v @ rest)
          = Some (map (\<lambda>c. [c]) ''ci_session='' @ [v])"
    using assms by (rule ci_session_value)
  moreover have "(map (\<lambda>c. [c]) ''ci_session='' @ [v]) ! 11 = v" by simp
  moreover have "startsWith (''ci_session='' @ v @ rest) ''ci_session=''"
    by (simp add: startsWith_def)
  ultimately show ?thesis unfolding carries_iff by blast
qed

lemma carries_empty_value:
  assumes "\<not> includes_str rest ''ci_session=''" "rest = [] \<or> hd rest = CHR '';''"
  shows "\<not> carries (''ci_session='' @ rest) v"
proof
  define s where "s = ''ci_session=''"
  have len: "length s = 11" by (simp add: s_def)
  have tl: "CHR ''c'' \<notin> set (tl s)" by (simp add: s_def)
  have hd: "s = CHR ''c'' # tl s" by (simp add: s_def)
  assume "carries (''ci_session='' @ rest) v"
  then obtain p r where e: "s @ rest = p @ s @ v @ r" and v: "v \<noteq> []"
    "CHR '';'' \<notin> set v"
    unfolding carries_def s_def by blast
  show False
  proof (cases "length p < length s")
    case False
    from e have "take (length s) (s @ rest) = take (length s) (p @ s @ v @ r)" by simp
    with False have "s = take (length s) p" by simp
    then have "p = s @ drop (length s) p" by (metis append_take_drop_id)
    with e have "s @ rest = s @ drop (length s) p @ s @ v @ r" by (metis append_assoc)
    then have "rest = drop (length s) p @ s @ (v @ r)" by simp
    then have "includes_str rest s" unfolding includes_str_iff by blast
    with assms(1) show False by (simp add: s_def)
  next
    case True
    show False
    proof (cases p)
      case Nil
      with e have "rest = v @ r" by simp
      with v assms(2) show False by (cases v) auto
    next
      case (Cons a p')
      from e have "(s @ rest) ! length p = (p @ s @ v @ r) ! length p" by simp
      also have "\<dots> = CHR ''c''" using hd by (metis nth_append_length append_Cons)
      also have "(s @ rest) ! length p = s ! length p" using True by (simp add: nth_append)
      also have "s ! length p = tl s ! length p'"
        using Cons hd by (metis length_Cons nth_Cons_Suc)
      finally have "tl s ! length p' = CHR ''c''" .
      moreover have "length p' < length (tl s)" using True Cons by simp
      ultimately have "CHR ''c'' \<in> set (tl s)" by (metis nth_mem)
      with tl show False by simp
    qed
  qed
qed

lemma extractSession_no_ci_session:
  assumes "\<forall>c\<in>set cs. \<not> startsWith c ''ci_session=''"
  shows "extractSessionFromResponse now (Some cs) = None"
  using extractCookies_skip [OF assms, of now "[]"]
  by (simp add: extractSessionFromResponse_def)

lemma extractSession_first:
  assumes "\<forall>c\<in>set pre. \<not> startsWith c ''ci_session=''"
    and "v \<noteq> []" "CHR '';'' \<notin> set v" "rest = [] \<or> hd rest = CHR '';''"
  shows "extractSessionFromResponse now (Some (pre @ (''ci_session='' @ v @ rest) # post))
              = Some \<lparr>cookie = v, expiry = now + 36000 * 1000\<rparr>"
proof -
  have m: "regex_match ci_session_re (''ci_session='' @ v @ rest)
           = Some (map (\<lambda>c. [c]) ''ci_session='' @ [v])"
    using assms(2-4) by (rule ci_session_value)
  have st: "startsWith (''ci_session='' @ v @ rest) ''ci_session=''"
    by (simp add: startsWith_def)
  have "extractCookies now ((''ci_session='' @ v @ rest) # post)
          = Some \<lparr>cookie = v, expiry = now + 36000 * 1000\<rparr>"
    unfolding extractCookies.simps using st m by simp
  then show ?thesis
    using extractCookies_skip [OF assms(1)]
    by (simp add: extractSessionFromResponse_def)
qed

lemma extractSession_sound:
  assumes "extractSessionFromResponse now hdrs = Some s"
  shows "expiry s = now + 36000 * 1000 \<and> cookie s \<noteq> [] \<and> CHR '';'' \<notin> set (cookie s)
            \<and> (\<exists>hs c p q. hdrs = Some hs \<and> c \<in> set hs \<and> startsWith c ''ci_session=''
                   \<and> c = p @ ''ci_session='' @ cookie s @ q)"
proof -
  from assms obtain hs where hs: "hdrs = Some hs" and e: "extractCookies now hs = Some s"
    by (auto simp: extractSessionFromResponse_def split: option.splits)
  from extractCookies_source [OF e] obtain c ps where
    c: "c \<in> set hs" "startsWith c ''ci_session=''"
    and ps: "regex_match ci_session_re c = Some ps" "cookie s = ps ! 11" by blast
  from ci_session_shape [OF ps(1)] obtain p q where
    v: "ps ! 11 \<noteq> []" "CHR '';'' \<notin> set (ps ! 11)" and cq: "c = p @ ''ci_session='' @ ps ! 11 @ q"
    by blast
  have "\<exists>hs c p q. hdrs = Some hs \<and> c \<in> set hs \<and> startsWith c ''ci_session=''
                   \<and> c = p @ ''ci_session='' @ cookie s @ q"
    using hs c cq ps(2) by metis
  then show ?thesis
    using v ps(2) extractCookies_expiry [OF e] by simp
qed

lemma login_response:
  "login now (LoginResponse code hdrs) = extractSessionFromResponse now hdrs"
  by (simp add: login_def split: option.splits)

text \<open>
  Claim C5.  The authenticator reads the Set-Cookie header values in order and stops at the
  first one that carries \<open>ci_session\<close>.  With no Set-Cookie header, or none that names
  \<open>ci_session\<close>, the outcome is "login failed" (\<open>None\<close>).  When the first header naming
  \<open>ci_session\<close> is \<open>ci_session=v\<close>, ended by a semicolon or by the end of the header, the
  outcome is the session with cookie \<open>v\<close> and expiry \<open>now\<close> + 36000 s.  Every session
  returned has that expiry and a non-empty cookie without semicolon, read after
  \<open>ci_session=\<close> in one of the headers that start with \<open>ci_session=\<close>.  A login response of any
  status, accepted or rejected, is read in the same way, and a rejected response without
  the cookie is "login failed".

  The outcome is decided for every list of headers: a header that starts with
  \<open>ci_session=\<close> but gives the cookie no value (the name is followed by a semicolon or by
  the end of the header, and does not occur again) is passed over like any other header;
  when no header carries a value the outcome is "login failed", and otherwise it is the
  session of the first header that carries one, with the value that header carries.  A
  header carries \<open>w\<close> exactly when it passes the test of the loop and the pattern
  \<open>ci_session=([^;]+)\<close> captures \<open>w\<close> in it.
\<close>

theorem extractSession_first_ci_session:
  "extractSessionFromResponse now None = None
   \<and> ((\<forall>c\<in>set cs. \<not> startsWith c ''ci_session='')
        \<longrightarrow> extractSessionFromResponse now (Some cs) = None)
   \<and> ((\<forall>c\<in>set pre. \<not> startsWith c ''ci_session='') \<and> v \<noteq> [] \<and> CHR '';'' \<notin> set v
          \<and> (rest = [] \<or> hd rest = CHR '';'')
        \<longrightarrow> extractSessionFromResponse now (Some (pre @ (''ci_session='' @ v @ rest) # post))
              = Some \<lparr>cookie = v, expiry = now + 36000 * 1000\<rparr>)
   \<and> (extractSessionFromResponse now hdrs = Some s
        \<longrightarrow> expiry s = now + 36000 * 1000 \<and> cookie s \<noteq> [] \<and> CHR '';'' \<notin> set (cookie s)
            \<and> (\<exists>hs c p q. hdrs = Some hs \<and> c \<in> set hs \<and> startsWith c ''ci_session=''
                   \<and> c = p @ ''ci_session='' @ cookie s @ q))
   \<and> login now (LoginResponse code hdrs) = extractSessionFromResponse now hdrs
   \<and> ((\<forall>c\<in>set hs. \<forall>u. \<not> carries c u) \<longrightarrow> extractSessionFromResponse now (Some hs) = None)
   \<and> ((\<forall>c\<in>set skipped. \<forall>u. \<not> carries c u) \<and> carries h w
        \<longrightarrow> extractSessionFromResponse now (Some (skipped @ h # later))
              = Some \<lparr>cookie = w, expiry = now + 36000 * 1000\<rparr>)
   \<and> (\<not> includes_str tail ''ci_session='' \<and> (tail = [] \<or> hd tail = CHR '';'')
        \<longrightarrow> \<not> carries (''ci_session='' @ tail) w)
   \<and> (carries h w \<longleftrightarrow> startsWith h ''ci_session=''
          \<and> (\<exists>ps. regex_match ci_session_re h = Some ps \<and> ps ! 11 = w))"
proof -
  have a: "extractSessionFromResponse now None = None"
    by (simp add: extractSessionFromResponse_def)
  have b: "(\<forall>c\<in>set cs. \<not> startsWith c ''ci_session='')
        \<longrightarrow> extractSessionFromResponse now (Some cs) = None"
    by (rule impI) (rule extractSession_no_ci_session)
  have c: "(\<forall>c\<in>set pre. \<not> startsWith c ''ci_session='') \<and> v \<noteq> [] \<and> CHR '';'' \<notin> set v
          \<and> (rest = [] \<or> hd rest = CHR '';'')
        \<longrightarrow> extractSessionFromResponse now (Some (pre @ (''ci_session='' @ v @ rest) # post))
              = Some \<lparr>cookie = v, expiry = now + 36000 * 1000\<rparr>"
  proof (rule impI, elim conjE)
    assume "\<forall>c\<in>set pre. \<not> startsWith c ''ci_session=''" "v \<noteq> []" "CHR '';'' \<notin> set v"
      "rest = [] \<or> hd rest = CHR '';''"
    then show "extractSessionFromResponse now (Some (pre @ (''ci_session='' @ v @ rest) # post))
              = Some \<lparr>cookie = v, expiry = now + 36000 * 1000\<rparr>"
      by (rule extractSession_first)
  qed
  have d: "extractSessionFromResponse now hdrs = Some s
        \<longrightarrow> expiry s = now + 36000 * 1000 \<and> cookie s \<noteq> [] \<and> CHR '';'' \<notin> set (cookie s)
            \<and> (\<exists>hs c p q. hdrs = Some hs \<and> c \<in> set hs \<and> startsWith c ''ci_session=''
                   \<and> c = p @ ''ci_session='' @ cookie s @ q)"
    by (rule impI) (rule extractSession_sound)
  note e = login_response [of now code hdrs]
  have f: "(\<forall>c\<in>set hs. \<forall>u. \<not> carries c u) \<longrightarrow> extractSessionFromResponse now (Some hs) = None"
    by (rule impI) (rule extractSession_none_carries)
  have g: "(\<forall>c\<in>set skipped. \<forall>u. \<not> carries c u) \<and> carries h w
        \<longrightarrow> extractSessionFromResponse now (Some (skipped @ h # later))
              = Some \<lparr>cookie = w, expiry = now + 36000 * 1000\<rparr>"
  proof (rule impI, elim conjE)
    assume "\<forall>c\<in>set skipped. \<forall>u. \<not> carries c u" "carries h w"
    then show "extractSessionFromResponse now (Some (skipped @ h # later))
              = Some \<lparr>cookie = w, expiry = now + 36000 * 1000\<rparr>"
      by (rule extractSession_first_carrier)
  qed
  have i: "\<not> includes_str tail ''ci_session='' \<and> (tail = [] \<or> hd tail = CHR '';'')
        \<longrightarrow> \<not> carries (''ci_session='' @ tail) w"
  proof (rule impI, elim conjE)
    assume "\<not> includes_str tail ''ci_session=''" "tail = [] \<or> hd tail = CHR '';''"
    then show "\<not> carries (''ci_session='' @ tail) w"
      by (rule carries_empty_value)
  qed
  note j = carries_iff [of h w]
  show ?thesis
    by (rule conjI [OF a conjI [OF b conjI [OF c conjI [OF d conjI [OF e
          conjI [OF f conjI [OF g conjI [OF i j]]]]]]]])
qed

theorem extractSession_first_ci_session_witness:
  "extractSessionFromResponse 5 (Some [''lang=id; path=/'', ''theme=dark''])  = None
   \<and> extractSessionFromResponse 5
        (Some [''lang=id; path=/'', ''ci_session=a1b2c3; expires=Tue; path=/'', ''ci_session=zzz''])
       = Some \<lparr>cookie = ''a1b2c3'', expiry = 36000005\<rparr>
   \<and> login 5 (LoginResponse 302 (Some [''ci_session=a1b2c3; path=/'']))
       = Some \<lparr>cookie = ''a1b2c3'', expiry = 36000005\<rparr>
   \<and> login 5 (LoginResponse 401 None) = None
   \<and> extractSessionFromResponse 5 (Some [''ci_session=; path=/'', ''ci_session=zzz''])
       = Some \<lparr>cookie = ''zzz'', expiry = 36000005\<rparr>
   \<and> extractSessionFromResponse 5 (Some [''ci_session=; path=/'', ''lang=id'']) = None"
proof -
  note t1 = extractSession_first_ci_session [where now = 5
      and cs = "[''lang=id; path=/'', ''theme=dark'']"
      and pre = "[''lang=id; path=/'']" and v = "''a1b2c3''"
      and rest = "''; expires=Tue; path=/''" and post = "[''ci_session=zzz'']"
      and hdrs = "None" and code = 401
      and hs = "[''ci_session=; path=/'', ''lang=id'']"
      and skipped = "[''ci_session=; path=/'']" and h = "''ci_session=zzz''" and w = "''zzz''"
      and later = "[]" and tail = "''; path=/''"]
  note t2 = extractSession_first_ci_session [where now = 5 and cs = "[]" and pre = "[]"
      and v = "''a1b2c3''" and rest = "''; path=/''" and post = "[]"
      and hdrs = "Some [''ci_session=a1b2c3; path=/'']" and code = 302
      and hs = "[]" and skipped = "[]" and h = "''lang=id''" and tail = "[]"]
  have empty: "\<not> carries ''ci_session=; path=/'' u" for u
    using carries_empty_value [of "''; path=/''" u] by (simp add: startsWith_def)
  have plain: "\<not> carries ''lang=id'' u" for u
    by (simp add: carries_def startsWith_def)
  have zzz: "carries ''ci_session=zzz'' ''zzz''"
    using carries_plain [of "''zzz''" "[]"] by simp
  have 1: "extractSessionFromResponse 5 (Some [''lang=id; path=/'', ''theme=dark''])  = None"
    using t1 by (simp add: startsWith_def)
  have 2: "extractSessionFromResponse 5
        (Some [''lang=id; path=/'', ''ci_session=a1b2c3; expires=Tue; path=/'', ''ci_session=zzz''])
       = Some \<lparr>cookie = ''a1b2c3'', expiry = 36000005\<rparr>"
    using t1 by (simp add: startsWith_def)
  have 3: "login 5 (LoginResponse 302 (Some [''ci_session=a1b2c3; path=/'']))
       = Some \<lparr>cookie = ''a1b2c3'', expiry = 36000005\<rparr>"
    using t2 by (simp add: startsWith_def)
  have 4: "login 5 (LoginResponse 401 None) = None"
    using t1 by simp
  have 5: "extractSessionFromResponse 5 (Some [''ci_session=; path=/'', ''ci_session=zzz''])
       = Some \<lparr>cookie = ''zzz'', expiry = 36000005\<rparr>"
    using t1 empty zzz by simp
  have 6: "extractSessionFromResponse 5 (Some [''ci_session=; path=/'', ''lang=id'']) = None"
    using t1 empty plain by simp
  show ?thesis
    by (rule conjI [OF 1 conjI [OF 2 conjI [OF 3 conjI [OF 4 conjI [OF 5 6]]]]])
qed

text \<open>
  Claim C6, as the code has it.  A transport error (no response) during the login exchange
  makes \<open>login\<close> return \<open>None\<close>, the value it returns for "login failed" (a response
  without the cookie); a transport error or a rejected status during the page fetch makes
  \<open>fetchExamPage\<close> return \<open>None\<close>, the value it returns when the fetch ended on the login
  page.  The caller receives the same value in both cases.
\<close>

theorem transport_error_is_null:
  "login now LoginNoResponse = None
   \<and> login now LoginNoResponse = login now (LoginResponse code None)
   \<and> fetchExamPage PageNoResponse = None
   \<and> fetchExamPage (PageBadStatus code') = None
   \<and> fetchExamPage PageNoResponse
        = fetchExamPage (PageResponse (Some ''https://www.aktuaris.or.id/page/login'') page)"
  by (simp add: login_def extractSessionFromResponse_def fetchExamPage_def startsWith_def)

theorem transport_error_distinct_counterexample:
  "\<not> (login 0 LoginNoResponse \<noteq> login 0 (LoginResponse 200 (Some [''lang=id'']))
      \<and> fetchExamPage PageNoResponse
          \<noteq> fetchExamPage (PageResponse (Some ''https://www.aktuaris.or.id/page/login'')
                (Text \<lparr>source = ''<html></html>'', anchors = [], exam_table = None\<rparr>)))"
  by (simp add: login_def extractSessionFromResponse_def fetchExamPage_def startsWith_def)

section \<open>Exam table\<close>

lemma includes_lower_iff:
  "toLowerCase sub = sub \<Longrightarrow> includes_str (toLowerCase label) sub \<longleftrightarrow> contains_ci label sub"
proof -
  assume low: "toLowerCase sub = sub"
  have "(\<exists>pre post. map lower_char label = pre @ sub @ post)
      \<longleftrightarrow> (\<exists>pre mid post. label = pre @ mid @ post \<and> map lower_char mid = sub)"
  proof
    assume "\<exists>pre post. map lower_char label = pre @ sub @ post"
    then obtain pre post where "map lower_char label = pre @ sub @ post" by blast
    then have "\<exists>a r. label = a @ r \<and> pre = map lower_char a \<and> sub @ post = map lower_char r"
      by (simp only: map_eq_append_conv)
    then obtain a r where a: "label = a @ r" "map lower_char r = sub @ post"
      by metis
    from a(2) have "\<exists>b c. r = b @ c \<and> sub = map lower_char b \<and> post = map lower_char c"
      by (simp only: map_eq_append_conv)
    then obtain b c where "r = b @ c" "map lower_char b = sub"
      by metis
    with a(1) show "\<exists>pre mid post. label = pre @ mid @ post \<and> map lower_char mid = sub" by blast
  next
    assume "\<exists>pre mid post. label = pre @ mid @ post \<and> map lower_char mid = sub"
    then obtain pre mid post where "label = pre @ mid @ post" "map lower_char mid = sub" by blast
    then have "map lower_char label = map lower_char pre @ sub @ map lower_char post" by simp
    then show "\<exists>pre post. map lower_char label = pre @ sub @ post" by blast
  qed
  then show ?thesis
    using low by (simp add: includes_str_iff contains_ci_def toLowerCase_def)
qed

lemma excludeActions_lower: "ex \<in> set excludeActions \<Longrightarrow> toLowerCase ex = ex"
  by (auto simp: excludeActions_def toLowerCase_def lower_char_def)

lemma keepActions_filter:
  "keepActions ls =
     map (\<lambda>l. \<lparr>action_text = trim (link_text l), action_link = href l\<rparr>)
       (filter (\<lambda>l. \<not> (\<exists>ex\<in>set excludeActions. contains_ci (trim (link_text l)) ex)) ls)"
proof (induction ls)
  case Nil
  then show ?case by simp
next
  case (Cons l ls)
  have "list_ex (\<lambda>ex. includes_str (toLowerCase (trim (link_text l))) ex) excludeActions
      \<longleftrightarrow> (\<exists>ex\<in>set excludeActions. contains_ci (trim (link_text l)) ex)"
    unfolding list_ex_iff using includes_lower_iff [OF excludeActions_lower] by blast
  with Cons.IH show ?case by (simp add: Let_def)
qed

lemma parseRow_Some:
  "parseRow cells = Some e \<Longrightarrow>
     6 \<le> length cells \<and> kode e = trim (cell_text (cells ! 0)) \<and> kode e \<noteq> [] \<and> kode e \<noteq> ''KODE''
     \<and> actions e = keepActions (cell_links (cells ! 5))"
  by (auto simp: parseRow_def Let_def split: if_splits)

lemma parseRows_set:
  "set (parseRows rows) = {e. \<exists>cells\<in>set rows. parseRow cells = Some e}"
  by (induction rows) (auto split: option.splits)

lemma parseRows_map_filter: "parseRows rows = List.map_filter parseRow rows"
  by (induction rows) (auto simp: List.map_filter_simps split: option.splits)

lemma is_space_lower: "is_space c \<Longrightarrow> lower_char c = c"
  by (auto simp: is_space_def lower_char_def)

lemma dropWhile_keeps:
  "mid \<noteq> [] \<Longrightarrow> \<not> P (hd mid) \<Longrightarrow> \<exists>pre'. dropWhile P (pre @ mid @ post) = pre' @ mid @ post"
proof (induction pre)
  case Nil
  then have "dropWhile P (mid @ post) = mid @ post"
    by (cases mid) auto
  then show ?case by (metis append_Nil)
next
  case (Cons c pre)
  show ?case
  proof (cases "P c")
    case True
    with Cons show ?thesis by simp
  next
    case False
    then have "dropWhile P ((c # pre) @ mid @ post) = (c # pre) @ mid @ post" by simp
    then show ?thesis by blast
  qed
qed

lemma trim_keeps:
  assumes "mid \<noteq> []" "\<not> is_space (hd mid)" "\<not> is_space (last mid)"
  shows "\<exists>pre' post'. trim (pre @ mid @ post) = pre' @ mid @ post'"
proof -
  from dropWhile_keeps [of mid is_space pre post] assms(1,2) obtain pre' where
    a: "dropWhile is_space (pre @ mid @ post) = pre' @ mid @ post" by blast
  have r: "rev mid \<noteq> []" "\<not> is_space (hd (rev mid))"
    using assms by (simp_all add: hd_rev)
  from dropWhile_keeps [of "rev mid" is_space "rev post" "rev pre'"] r obtain post' where
    "dropWhile is_space (rev post @ rev mid @ rev pre') = post' @ rev mid @ rev pre'" by blast
  then have "trim (pre @ mid @ post) = pre' @ mid @ rev post'"
    by (simp add: trim_def a)
  then show ?thesis by blast
qed

lemma trim_inside: "\<exists>a b. t = a @ trim t @ b"
proof -
  define u where "u = dropWhile is_space t"
  have "t = takeWhile is_space t @ u" by (simp add: u_def)
  moreover have "rev u = takeWhile is_space (rev u) @ dropWhile is_space (rev u)" by simp
  then have "u = rev (dropWhile is_space (rev u)) @ rev (takeWhile is_space (rev u))"
    by (metis rev_append rev_rev_ident)
  then have "u = trim t @ rev (takeWhile is_space (rev u))"
    by (simp add: trim_def u_def)
  ultimately show ?thesis by metis
qed

lemma contains_ci_trim:
  assumes "sub \<noteq> []" "toLowerCase sub = sub" "\<not> is_space (hd sub)" "\<not> is_space (last sub)"
  shows "contains_ci (trim t) sub \<longleftrightarrow> contains_ci t sub"
proof
  assume "contains_ci (trim t) sub"
  then obtain pre mid post where m: "trim t = pre @ mid @ post" "toLowerCase mid = toLowerCase sub"
    by (auto simp: contains_ci_def)
  from trim_inside [of t] obtain a b where "t = a @ trim t @ b" by blast
  with m(1) have "t = (a @ pre) @ mid @ (post @ b)" by simp
  with m(2) show "contains_ci t sub" unfolding contains_ci_def by blast
next
  assume "contains_ci t sub"
  then obtain pre mid post where m: "t = pre @ mid @ post" "toLowerCase mid = toLowerCase sub"
    by (auto simp: contains_ci_def)
  from m(2) assms(2) have ms: "map lower_char mid = sub" by (simp add: toLowerCase_def)
  with assms(1) have ne: "mid \<noteq> []" by auto
  have "lower_char (hd mid) = hd sub" using ms ne by (metis hd_map)
  with assms(3) have h: "\<not> is_space (hd mid)" using is_space_lower by metis
  have "lower_char (last mid) = last sub" using ms ne by (metis last_map)
  with assms(4) have l: "\<not> is_space (last mid)" using is_space_lower by metis
  from trim_keeps [OF ne h l, of pre post] m(1) obtain pre' post' where
    "trim t = pre' @ mid @ post'" by blast
  with m(2) show "contains_ci (trim t) sub" unfolding contains_ci_def by blast
qed

lemma excludeActions_edges:
  "ex \<in> set excludeActions \<Longrightarrow> ex \<noteq> [] \<and> \<not> is_space (hd ex) \<and> \<not> is_space (last ex)"
  by (auto simp: excludeActions_def is_space_def)

lemma denied_trim:
  "(\<exists>ex\<in>set excludeActions. contains_ci (trim t) ex)
     \<longleftrightarrow> (\<exists>ex\<in>set excludeActions. contains_ci t ex)"
  using contains_ci_trim excludeActions_edges excludeActions_lower by blast

lemma keepActions_raw:
  "keepActions ls =
     map (\<lambda>l. \<lparr>action_text = trim (link_text l), action_link = href l\<rparr>)
       (filter (\<lambda>l. \<not> (\<exists>ex\<in>set excludeActions. contains_ci (link_text l) ex)) ls)"
  by (simp add: keepActions_filter denied_trim)

lemma keepActions_clean:
  "a \<in> set (keepActions ls) \<Longrightarrow> ex \<in> set excludeActions \<Longrightarrow> \<not> contains_ci (action_text a) ex"
  by (auto simp: keepActions_filter)

lemma parseExamTable_set:
  "e \<in> set (parseExamTable h) \<longleftrightarrow>
     (\<exists>rows cells. exam_table h = Some rows \<and> cells \<in> set rows \<and> parseRow cells = Some e)"
  by (cases "exam_table h") (auto simp: parseExamTable_def parseRows_set)

lemma parseRow_discard:
  "trim (cell_text (cells ! 0)) = [] \<or> trim (cell_text (cells ! 0)) = ''KODE'' \<Longrightarrow>
     parseRow cells = None"
  by (auto simp: parseRow_def Let_def)

lemma parseRow_short: "length cells < 6 \<Longrightarrow> parseRow cells = None"
  by (simp add: parseRow_def)

lemma parseRows_long: "parseRows (filter (\<lambda>cells. 6 \<le> length cells) rows) = parseRows rows"
  by (induction rows) (auto simp: parseRow_short split: option.splits)

lemma parseRows_drop_short:
  "length cells < 6 \<Longrightarrow> parseRows (pre @ cells # post) = parseRows (pre @ post)"
  by (induction pre) (auto simp: parseRow_short split: option.splits)

text \<open>
  Claim C9.  The record made from a table row lists as actions the anchors of the row's
  sixth cell, in order, except those whose label contains, in any letter case, one of
  \<open>detail\<close>, \<open>cetak undangan\<close>, \<open>cetak kartu ujian\<close>: no action of a record has such a
  label.  A row whose first cell is empty once trimmed, or is the header literal \<open>KODE\<close>,
  gives no record, so every record of the parsed table has a code that is neither.
\<close>

theorem parseExamTable_denylist:
  "(parseRow cells = Some e \<longrightarrow>
      actions e = map (\<lambda>l. \<lparr>action_text = trim (link_text l), action_link = href l\<rparr>)
                    (filter (\<lambda>l. \<not> (\<exists>ex\<in>set excludeActions. contains_ci (link_text l) ex))
                       (cell_links (cells ! 5))))
   \<and> (trim (cell_text (cells ! 0)) = [] \<or> trim (cell_text (cells ! 0)) = ''KODE''
        \<longrightarrow> parseRow cells = None)
   \<and> (x \<in> set (parseExamTable h) \<longrightarrow>
        kode x \<noteq> [] \<and> kode x \<noteq> ''KODE''
        \<and> (\<forall>a\<in>set (actions x). \<forall>ex\<in>set excludeActions. \<not> contains_ci (action_text a) ex))"
proof -
  have a: "parseRow cells = Some e \<longrightarrow>
      actions e = map (\<lambda>l. \<lparr>action_text = trim (link_text l), action_link = href l\<rparr>)
                    (filter (\<lambda>l. \<not> (\<exists>ex\<in>set excludeActions. contains_ci (link_text l) ex))
                       (cell_links (cells ! 5)))"
    using parseRow_Some [of cells e] keepActions_raw by simp
  have b: "trim (cell_text (cells ! 0)) = [] \<or> trim (cell_text (cells ! 0)) = ''KODE''
        \<longrightarrow> parseRow cells = None"
    using parseRow_discard by blast
  have c: "x \<in> set (parseExamTable h) \<longrightarrow>
        kode x \<noteq> [] \<and> kode x \<noteq> ''KODE''
        \<and> (\<forall>a\<in>set (actions x). \<forall>ex\<in>set excludeActions. \<not> contains_ci (action_text a) ex)"
  proof
    assume "x \<in> set (parseExamTable h)"
    then obtain cs where "parseRow cs = Some x"
      unfolding parseExamTable_set by blast
    from parseRow_Some [OF this] keepActions_clean
    show "kode x \<noteq> [] \<and> kode x \<noteq> ''KODE''
        \<and> (\<forall>a\<in>set (actions x). \<forall>ex\<in>set excludeActions. \<not> contains_ci (action_text a) ex)"
      by metis
  qed
  show ?thesis by (rule conjI [OF a conjI [OF b c]])
qed

lemma sample_parse: "parseExamTable sample_exam_page = [sample_exam]"
  by code_simp

lemma sample_rows_nth:
  "parseRow (sample_rows ! 0) = None" "parseRow (sample_rows ! 1) = None"
  "parseRow (sample_rows ! 2) = Some sample_exam" "parseRow (sample_rows ! 3) = None"
  by code_simp+

theorem parseExamTable_denylist_witness:
  "parseRow (sample_rows ! 2) = Some sample_exam
   \<and> actions sample_exam = [\<lparr>action_text = ''Bayar'', action_link = Some ''/exam/pay/7''\<rparr>]
   \<and> trim (cell_text (sample_rows ! 0 ! 0)) = ''KODE'' \<and> parseRow (sample_rows ! 0) = None
   \<and> trim (cell_text (sample_rows ! 3 ! 0)) = [] \<and> parseRow (sample_rows ! 3) = None
   \<and> sample_exam \<in> set (parseExamTable sample_exam_page)
   \<and> \<not> contains_ci ''Bayar'' ''detail''
   \<and> \<not> contains_ci ''Bayar'' ''cetak undangan''
   \<and> \<not> contains_ci ''Bayar'' ''cetak kartu ujian''"
proof -
  have t0: "trim (cell_text (sample_rows ! 0 ! 0)) = ''KODE''" by code_simp
  have t3: "trim (cell_text (sample_rows ! 3 ! 0)) = []" by code_simp
  have ac: "actions sample_exam = [\<lparr>action_text = ''Bayar'', action_link = Some ''/exam/pay/7''\<rparr>]"
    by (simp add: sample_exam_def)
  have m: "sample_exam \<in> set (parseExamTable sample_exam_page)"
    by (simp add: sample_parse)
  show ?thesis
    using parseExamTable_denylist [of "sample_rows ! 0" sample_exam sample_exam sample_exam_page]
      parseExamTable_denylist [of "sample_rows ! 3" sample_exam sample_exam sample_exam_page]
      t0 t3 ac m sample_rows_nth(3)
    by (simp add: excludeActions_def)
qed

text \<open>
  Claim C10.  A row with fewer than 6 cells gives no record, whatever its cells hold, and
  removing it from the table does not change the parsed list; every record of the parsed
  table comes from a row of the table that has at least 6 cells.
\<close>

theorem parseExamTable_six_cells:
  "(length cells < 6 \<longrightarrow> parseRow cells = None)
   \<and> (parseRow cells = Some e \<longrightarrow> 6 \<le> length cells)
   \<and> (length cells < 6 \<longrightarrow> parseRows (pre @ cells # post) = parseRows (pre @ post))
   \<and> parseRows (filter (\<lambda>cells. 6 \<le> length cells) rows) = parseRows rows
   \<and> (x \<in> set (parseExamTable h) \<longrightarrow>
        (\<exists>rows cs. exam_table h = Some rows \<and> cs \<in> set rows \<and> 6 \<le> length cs
            \<and> parseRow cs = Some x))"
proof -
  have a: "length cells < 6 \<longrightarrow> parseRow cells = None"
    using parseRow_short by blast
  have b: "parseRow cells = Some e \<longrightarrow> 6 \<le> length cells"
    using parseRow_Some by blast
  have c: "length cells < 6 \<longrightarrow> parseRows (pre @ cells # post) = parseRows (pre @ post)"
    using parseRows_drop_short by blast
  have d: "x \<in> set (parseExamTable h) \<longrightarrow>
        (\<exists>rows cs. exam_table h = Some rows \<and> cs \<in> set rows \<and> 6 \<le> length cs
            \<and> parseRow cs = Some x)"
    unfolding parseExamTable_set using parseRow_Some by blast
  show ?thesis by (rule conjI [OF a conjI [OF b conjI [OF c conjI [OF parseRows_long d]]]])
qed

theorem parseExamTable_six_cells_witness:
  "length (sample_rows ! 1) < 6 \<and> parseRow (sample_rows ! 1) = None
   \<and> parseRows (take 1 sample_rows @ sample_rows ! 1 # drop 2 sample_rows)
       = parseRows (take 1 sample_rows @ drop 2 sample_rows)
   \<and> parseRow (sample_rows ! 2) = Some sample_exam \<and> 6 \<le> length (sample_rows ! 2)
   \<and> sample_exam \<in> set (parseExamTable sample_exam_page)"
proof -
  have l: "length (sample_rows ! 1) < 6" by code_simp
  have m: "sample_exam \<in> set (parseExamTable sample_exam_page)"
    by (simp add: sample_parse)
  show ?thesis
    using parseExamTable_six_cells [of "sample_rows ! 1" sample_exam "take 1 sample_rows"
        "drop 2 sample_rows" sample_rows sample_exam sample_exam_page]
      parseExamTable_six_cells [of "sample_rows ! 2" sample_exam "[]" "[]" "[]"
        sample_exam sample_exam_page]
      l m sample_rows_nth(3)
    by simp
qed

section \<open>Listing parser\<close>

lemma bits_nonneg: "0 \<le> bits n"
proof (induction n rule: bits.induct)
  case (1 n)
  then show ?case by (subst bits.simps) auto
qed

lemma bits_bound: "0 \<le> n \<Longrightarrow> n < 2 ^ k \<Longrightarrow> bits n \<le> int k"
proof (induction k arbitrary: n)
  case 0
  then have "n = 0" by simp
  then show ?case by (simp add: bits.simps)
next
  case (Suc k)
  show ?case
  proof (cases "n \<le> 0")
    case True
    then show ?thesis by (simp add: bits.simps)
  next
    case False
    from Suc.prems have "n div 2 < 2 ^ k" "0 \<le> n div 2" by auto
    from Suc.IH [OF this(2) this(1)] False show ?thesis
      by (subst bits.simps) simp
  qed
qed

lemma bits_pos: "0 < n \<Longrightarrow> 1 \<le> bits n"
  using bits_nonneg [of "n div 2"] by (subst bits.simps) simp

text \<open>A non-negative integer below \<open>2^53\<close> is a double.\<close>

lemma to_double_exact:
  assumes "0 \<le> n" "n < 2 ^ 53"
  shows "to_double (of_int n) = Fin (of_int n)"
proof (cases "n = 0")
  case True
  then show ?thesis by (simp add: to_double_def)
next
  case False
  with assms have pos: "0 < n" by simp
  define e where "e = bits n - 1"
  have e: "0 \<le> e" "e \<le> 52"
    using bits_pos [OF pos] bits_bound [OF assms] by (simp_all add: e_def)
  have ex: "exponent_of (of_int n) = e"
    using pos by (simp add: exponent_of_def e_def)
  define m where "m = nat (52 - e)"
  have u: "max e (- 1022) - 52 = - int m" using e by (simp add: m_def)
  have p: "pow2 (- int m) = 1 / 2 ^ m"
    by (cases "m = 0") (simp_all add: pow2_def)
  define k where "k = n * 2 ^ m"
  have q: "(of_int n :: rat) / (1 / 2 ^ m) = of_int k" by (simp add: k_def)
  have r: "round_half_even (of_int k) = k"
    unfolding round_half_even_def Let_def by simp
  have bk: "(of_int k :: rat) * (1 / 2 ^ m) = of_int n" by (simp add: k_def)
  have "\<not> 1024 \<le> exponent_of (of_int n)" using ex e by simp
  then show ?thesis
    using False unfolding to_double_def Let_def ex u p q r bk by simp
qed

lemma to_double_not_NaN: "to_double x \<noteq> NaN"
  by (simp add: to_double_def Let_def)

lemma digits_value_nonneg:
  assumes "set s \<subseteq> set digits"
  shows "0 \<le> digits_value s"
proof -
  have "0 \<le> n \<Longrightarrow> set s \<subseteq> set digits
      \<Longrightarrow> 0 \<le> foldl (\<lambda>n c. 10 * n + (int (of_char c) - 48)) n s" for n
  proof (induction s arbitrary: n)
    case Nil
    then show ?case by simp
  next
    case (Cons c s)
    from Cons.prems(2) have "c \<in> set digits" by simp
    then have "48 \<le> int (of_char c)" by (auto simp: digits_def)
    with Cons.prems(1) have "0 \<le> 10 * n + (int (of_char c) - 48)" by simp
    with Cons.IH [of "10 * n + (int (of_char c) - 48)"] Cons.prems(2) show ?case by simp
  qed
  with assms show ?thesis by (simp add: digits_value_def)
qed

lemma takeWhile_digits: "set s \<subseteq> set digits \<Longrightarrow> takeWhile (\<lambda>c. c \<in> set digits) s = s"
  by (induction s) auto

lemma parseInt_digits:
  assumes "s \<noteq> []" "set s \<subseteq> set digits"
  shows "parseInt s \<noteq> NaN"
  using assms by (simp add: parseInt_def takeWhile_digits to_double_not_NaN)

lemma parseInt_exact:
  assumes "safe_id s" "s \<noteq> []" "set s \<subseteq> set digits"
  shows "parseInt s = Fin (of_int (id_value s))"
proof -
  have v: "id_value s = digits_value s"
    by (simp add: id_value_def takeWhile_digits [OF assms(3)])
  have "0 \<le> digits_value s" by (rule digits_value_nonneg [OF assms(3)])
  moreover from assms(1) v have "digits_value s < 2 ^ 53" by (simp add: safe_id_def)
  ultimately have "to_double (of_int (digits_value s)) = Fin (of_int (digits_value s))"
    by (rule to_double_exact)
  with assms(2) show ?thesis
    by (simp add: parseInt_def takeWhile_digits [OF assms(3)] v)
qed

text \<open>The sort keeps the entries and puts them in the order of the comparison function.\<close>

lemma mset_insert_by: "mset (insert_by cmp x ys) = add_mset x (mset ys)"
  by (induction ys) auto

lemma set_insert_by: "set (insert_by cmp x ys) = insert x (set ys)"
  by (induction ys) auto

lemma mset_array_sort: "mset (array_sort cmp xs) = mset xs"
  by (induction xs) (simp_all add: array_sort_def mset_insert_by)

lemma set_array_sort: "set (array_sort cmp xs) = set xs"
  by (induction xs) (simp_all add: array_sort_def set_insert_by)

lemma distinct_ids_array_sort:
  "distinct (map id_str (array_sort byIdDesc xs)) \<longleftrightarrow> distinct (map id_str xs)"
proof -
  have "mset (map id_str (array_sort byIdDesc xs)) = mset (map id_str xs)"
    by (simp add: mset_array_sort)
  then show ?thesis by (rule mset_eq_imp_distinct_iff)
qed

lemma byIdDesc_le:
  assumes "parseInt (id_str a) \<noteq> NaN" "parseInt (id_str b) \<noteq> NaN"
  shows "byIdDesc a b \<le> 0 \<longleftrightarrow> num_le (parseInt (id_str b)) (parseInt (id_str a))"
  using assms
  by (cases "parseInt (id_str a)"; cases "parseInt (id_str b)") (simp_all add: byIdDesc_def)

lemma num_le_total: "x \<noteq> NaN \<Longrightarrow> y \<noteq> NaN \<Longrightarrow> num_le x y \<or> num_le y x"
  by (cases x; cases y) auto

lemma num_le_trans: "num_le x y \<Longrightarrow> num_le y z \<Longrightarrow> num_le x z"
  by (cases x; cases y; cases z) auto

lemma insert_by_descending:
  assumes "parseInt (id_str x) \<noteq> NaN" "\<forall>y\<in>set ys. parseInt (id_str y) \<noteq> NaN"
    and "sorted_wrt (\<lambda>a b. num_le (parseInt (id_str b)) (parseInt (id_str a))) ys"
  shows "sorted_wrt (\<lambda>a b. num_le (parseInt (id_str b)) (parseInt (id_str a)))
           (insert_by byIdDesc x ys)"
  using assms
proof (induction ys)
  case Nil
  then show ?case by simp
next
  case (Cons y ys)
  note le = byIdDesc_le [OF Cons.prems(1), of y]
  from Cons.prems(2) have y: "parseInt (id_str y) \<noteq> NaN" by simp
  show ?case
  proof (cases "byIdDesc x y \<le> 0")
    case True
    with le y have xy: "num_le (parseInt (id_str y)) (parseInt (id_str x))" by simp
    have "num_le (parseInt (id_str z)) (parseInt (id_str x))" if "z \<in> set ys" for z
    proof -
      from that Cons.prems(3) have "num_le (parseInt (id_str z)) (parseInt (id_str y))" by simp
      then show ?thesis using xy by (rule num_le_trans)
    qed
    with True xy Cons.prems(3) show ?thesis by simp
  next
    case False
    with le y have "\<not> num_le (parseInt (id_str y)) (parseInt (id_str x))" by simp
    with num_le_total [OF Cons.prems(1) y]
    have yx: "num_le (parseInt (id_str x)) (parseInt (id_str y))" by blast
    from Cons.prems have ih: "sorted_wrt (\<lambda>a b. num_le (parseInt (id_str b)) (parseInt (id_str a)))
           (insert_by byIdDesc x ys)"
      by (intro Cons.IH) simp_all
    from False yx ih Cons.prems(3) show ?thesis
      by (auto simp: set_insert_by)
  qed
qed

lemma array_sort_descending:
  assumes "\<forall>a\<in>set xs. parseInt (id_str a) \<noteq> NaN"
  shows "sorted_wrt (\<lambda>a b. num_le (parseInt (id_str b)) (parseInt (id_str a)))
           (array_sort byIdDesc xs)"
  using assms
proof (induction xs)
  case Nil
  then show ?case by (simp add: array_sort_def)
next
  case (Cons x xs)
  have "array_sort byIdDesc (x # xs) = insert_by byIdDesc x (array_sort byIdDesc xs)"
    by (simp add: array_sort_def)
  moreover have "sorted_wrt (\<lambda>a b. num_le (parseInt (id_str b)) (parseInt (id_str a)))
           (insert_by byIdDesc x (array_sort byIdDesc xs))"
    using Cons by (intro insert_by_descending) (simp_all add: set_array_sort)
  ultimately show ?case by simp
qed

lemma descending_exact:
  assumes "sorted_wrt (\<lambda>a b. num_le (parseInt (id_str b)) (parseInt (id_str a))) xs"
    and "\<forall>a\<in>set xs. safe_id (id_str a) \<and> id_str a \<noteq> [] \<and> set (id_str a) \<subseteq> set digits"
  shows "sorted_wrt (\<lambda>a b. id_value (id_str b) \<le> id_value (id_str a)) xs"
proof -
  have "id_value (id_str b) \<le> id_value (id_str a)"
    if "a \<in> set xs" "b \<in> set xs" "num_le (parseInt (id_str b)) (parseInt (id_str a))" for a b
  proof -
    from that(1,2) assms(2) have "parseInt (id_str a) = Fin (of_int (id_value (id_str a)))"
      "parseInt (id_str b) = Fin (of_int (id_value (id_str b)))"
      by (simp_all add: parseInt_exact)
    with that(3) show ?thesis by simp
  qed
  with assms(1) show ?thesis
    by (rule sorted_wrt_mono_rel [rotated])
qed

lemma descending_strict:
  "sorted_wrt (\<lambda>a b. f b \<le> (f a :: int)) xs \<Longrightarrow> distinct (map f xs) \<Longrightarrow>
     sorted_wrt (\<lambda>a b. f b < f a) xs"
proof (induction xs)
  case Nil
  then show ?case by simp
next
  case (Cons a xs)
  have "f x < f a" if "x \<in> set xs" for x
  proof -
    from that Cons.prems(1) have "f x \<le> f a" by simp
    moreover from Cons.prems(2) have "f a \<notin> f ` set xs" by simp
    with that have "f x \<noteq> f a" by (metis image_eqI)
    ultimately show ?thesis by simp
  qed
  with Cons show ?case by simp
qed

lemma eachAnchor_addFirst: "eachAnchor ls m = addFirst (List.map_filter candidate ls) m"
  by (induction ls arbitrary: m)
     (auto simp: List.map_filter_simps candidate_def map_set_def Let_def split: option.splits)

lemma addFirst_distinct:
  "distinct (map fst m) \<Longrightarrow> distinct (map fst (addFirst cs m))"
  by (induction cs m rule: addFirst.induct) (auto simp: map_has_def)

lemma addFirst_map_of: "map_of (addFirst cs m) = map_of (m @ cs)"
proof (induction cs m rule: addFirst.induct)
  case (1 m)
  then show ?case by simp
next
  case (2 k v cs m)
  show ?case
  proof (cases "map_has m k")
    case True
    then obtain w where "map_of m k = Some w"
      by (metis map_has_def map_of_eq_None_iff not_None_eq)
    then have "map_of (m @ (k, v) # cs) = map_of (m @ cs)"
      by (auto simp: map_add_def fun_eq_iff split: option.splits)
    with 2 True show ?thesis by simp
  next
    case False
    with 2 show ?thesis by simp
  qed
qed

lemma addFirst_keyed:
  "\<forall>(k, v)\<in>set m. k = id_str v \<Longrightarrow> \<forall>(k, v)\<in>set cs. k = id_str v \<Longrightarrow>
     \<forall>(k, v)\<in>set (addFirst cs m). k = id_str v"
  by (induction cs m rule: addFirst.induct) auto

lemma candidate_keyed: "candidate l = Some (k, v) \<Longrightarrow> k = id_str v"
  by (auto simp: candidate_def split: option.splits if_splits)

lemma candidates_keyed: "\<forall>(k, v)\<in>set (candidates h). k = id_str v"
  by (auto simp: candidates_def List.map_filter_def dest: candidate_keyed)

lemma parseArticles_addFirst:
  "parseArticles h = array_sort byIdDesc (map snd (addFirst (candidates h) []))"
  by (simp add: parseArticles_def eachAnchor_addFirst candidates_def map_values_def)

lemma keyed_ids: "\<forall>(k, v)\<in>set m. k = id_str v \<Longrightarrow> map id_str (map snd m) = map fst m"
  by (induction m) auto

lemma entries_keyed: "\<forall>(k, v)\<in>set (addFirst (candidates h) []). k = id_str v"
  by (rule addFirst_keyed) (simp_all add: candidates_keyed)

lemma entries_distinct: "distinct (map fst (addFirst (candidates h) []))"
  by (rule addFirst_distinct) simp

lemma parseArticles_distinct: "distinct (map id_str (parseArticles h))"
proof -
  have "map id_str (map snd (addFirst (candidates h) [])) = map fst (addFirst (candidates h) [])"
    by (rule keyed_ids [OF entries_keyed])
  then have "distinct (map id_str (map snd (addFirst (candidates h) [])))"
    by (simp only: entries_distinct)
  then show ?thesis
    by (simp only: parseArticles_addFirst distinct_ids_array_sort)
qed

lemma parseArticles_first:
  "a \<in> set (parseArticles h) \<longleftrightarrow> map_of (candidates h) (id_str a) = Some a"
proof -
  let ?m = "addFirst (candidates h) []"
  have "a \<in> set (parseArticles h) \<longleftrightarrow> a \<in> snd ` set ?m"
    by (simp add: parseArticles_addFirst set_array_sort)
  also have "\<dots> \<longleftrightarrow> (id_str a, a) \<in> set ?m"
    using entries_keyed [of h] by force
  also have "\<dots> \<longleftrightarrow> map_of ?m (id_str a) = Some a"
    using entries_distinct [of h] by simp
  also have "\<dots> \<longleftrightarrow> map_of (candidates h) (id_str a) = Some a"
    by (simp add: addFirst_map_of)
  finally show ?thesis .
qed

lemma news_detail_shape:
  assumes "regex_match news_detail_re s = Some ps"
  shows "ps ! 18 \<noteq> [] \<and> set (ps ! 18) \<subseteq> set digits"
proof -
  define t where "t = ''/page/news_detail/''"
  have len: "length t = 18" by (simp add: t_def)
  from regex_match_sound [OF assms]
  have "list_all2 fits (map lit t @ [plus (Among digits), lit CHR ''/'']) ps"
    by (simp only: news_detail_re_def t_def)
  from fits_lits [OF this] obtain qs where
    ps: "ps = map (\<lambda>c. [c]) t @ qs" and qs: "list_all2 fits [plus (Among digits), lit CHR ''/''] qs"
    by blast
  from qs obtain v w where vw: "qs = [v, w]" "fits (plus (Among digits)) v"
    by (auto simp: list_all2_Cons1)
  have "ps ! length t = v"
    unfolding ps vw(1) by (simp add: nth_append)
  then have "ps ! 18 = v" by (simp only: len)
  moreover from vw(2) have "v \<noteq> []" "set v \<subseteq> set digits"
    by (auto simp: fits_def plus_def list_all_iff)
  ultimately show ?thesis by simp
qed

lemma candidate_shape:
  assumes "candidate l = Some (k, v)"
  shows "title v \<noteq> [] \<and> id_str v \<noteq> [] \<and> set (id_str v) \<subseteq> set digits"
proof -
  from assms obtain s ps where m: "regex_match news_detail_re s = Some ps"
    and v: "id_str v = ps ! 18" "title v = trim (link_text l)" "trim (link_text l) \<noteq> []"
    by (auto simp: candidate_def split: option.splits if_splits)
  from news_detail_shape [OF m] v show ?thesis by simp
qed

lemma parseArticles_shape:
  assumes "a \<in> set (parseArticles h)"
  shows "title a \<noteq> [] \<and> id_str a \<noteq> [] \<and> set (id_str a) \<subseteq> set digits"
proof -
  from assms have "map_of (candidates h) (id_str a) = Some a"
    by (simp add: parseArticles_first)
  then have "(id_str a, a) \<in> set (candidates h)" by (rule map_of_SomeD)
  then obtain l where "candidate l = Some (id_str a, a)"
    by (auto simp: candidates_def List.map_filter_def)
  then show ?thesis by (rule candidate_shape)
qed

lemma parseArticles_descending:
  "sorted_wrt (\<lambda>a b. num_le (parseInt (id_str b)) (parseInt (id_str a))) (parseArticles h)"
proof -
  have "\<forall>a\<in>set (map snd (addFirst (candidates h) [])). parseInt (id_str a) \<noteq> NaN"
  proof
    fix a assume "a \<in> set (map snd (addFirst (candidates h) []))"
    then have "a \<in> set (parseArticles h)"
      by (simp add: parseArticles_addFirst set_array_sort)
    from parseArticles_shape [OF this] show "parseInt (id_str a) \<noteq> NaN"
      by (simp add: parseInt_digits)
  qed
  then show ?thesis
    unfolding parseArticles_addFirst by (rule array_sort_descending)
qed

lemma parseArticles_safe:
  assumes "safe_ids h" "a \<in> set (parseArticles h)"
  shows "safe_id (id_str a)"
proof -
  from assms(2) have "map_of (candidates h) (id_str a) = Some a"
    by (simp add: parseArticles_first)
  then have "(id_str a, a) \<in> set (candidates h)" by (rule map_of_SomeD)
  with assms(1) show ?thesis by (auto simp: safe_ids_def list_all_iff)
qed

lemma parseArticles_descending_exact:
  assumes "safe_ids h"
  shows "sorted_wrt (\<lambda>a b. id_value (id_str b) \<le> id_value (id_str a)) (parseArticles h)"
  using parseArticles_descending
proof (rule descending_exact)
  show "\<forall>a\<in>set (parseArticles h).
     safe_id (id_str a) \<and> id_str a \<noteq> [] \<and> set (id_str a) \<subseteq> set digits"
    using parseArticles_safe [OF assms] parseArticles_shape by blast
qed

lemma parseArticles_strict:
  assumes "safe_ids h" "inj_on id_value (id_str ` set (parseArticles h))"
  shows "sorted_wrt (\<lambda>a b. id_value (id_str b) < id_value (id_str a)) (parseArticles h)"
proof -
  have "distinct (map id_value (map id_str (parseArticles h)))"
    using assms(2) parseArticles_distinct [of h] by (simp add: distinct_map del: map_map)
  then have "distinct (map (\<lambda>a. id_value (id_str a)) (parseArticles h))"
    by (simp add: comp_def)
  with parseArticles_descending_exact [OF assms(1)] show ?thesis
    by (rule descending_strict)
qed

text \<open>
  Claim C3, as the code has it.  The entries of a parsed listing have pairwise different
  ids; the entry kept for an id is the one of the first anchor of the page that stands for
  an entry with this id, and an anchor stands for an entry only if its trimmed text is not
  empty and its address carries a non-empty run of digits, which is the id.  When every id
  is read exactly, the entries are in descending order of the numeric value of the id,
  equal values allowed (two different ids, such as 7 and 07, can have the same value); the
  order is strictly descending when no two ids of the result have the same value.  Whatever
  the ids, the entries are in descending order of the doubles that \<^verbatim>\<open>parseInt\<close> reads from
  them, and \<^verbatim>\<open>parseInt\<close> reads the numeric value of an id below \<open>2^53\<close>.
\<close>

theorem parseArticles_unique_descending:
  "distinct (map id_str (parseArticles h))
   \<and> (a \<in> set (parseArticles h) \<longleftrightarrow> map_of (candidates h) (id_str a) = Some a)
   \<and> (a \<in> set (parseArticles h) \<longrightarrow>
         title a \<noteq> [] \<and> id_str a \<noteq> [] \<and> set (id_str a) \<subseteq> set digits)
   \<and> (safe_ids h \<longrightarrow>
         sorted_wrt (\<lambda>a b. id_value (id_str b) \<le> id_value (id_str a)) (parseArticles h))
   \<and> (safe_ids h \<and> inj_on id_value (id_str ` set (parseArticles h)) \<longrightarrow>
         sorted_wrt (\<lambda>a b. id_value (id_str b) < id_value (id_str a)) (parseArticles h))
   \<and> sorted_wrt (\<lambda>a b. num_le (parseInt (id_str b)) (parseInt (id_str a))) (parseArticles h)
   \<and> (safe_id s \<and> s \<noteq> [] \<and> set s \<subseteq> set digits \<longrightarrow> parseInt s = Fin (of_int (id_value s)))"
proof -
  have c: "a \<in> set (parseArticles h) \<longrightarrow>
         title a \<noteq> [] \<and> id_str a \<noteq> [] \<and> set (id_str a) \<subseteq> set digits"
    using parseArticles_shape by blast
  have d: "safe_ids h \<longrightarrow>
         sorted_wrt (\<lambda>a b. id_value (id_str b) \<le> id_value (id_str a)) (parseArticles h)"
    using parseArticles_descending_exact by blast
  have e: "safe_ids h \<and> inj_on id_value (id_str ` set (parseArticles h)) \<longrightarrow>
         sorted_wrt (\<lambda>a b. id_value (id_str b) < id_value (id_str a)) (parseArticles h)"
    using parseArticles_strict by blast
  note f = parseArticles_descending [of h]
  have g: "safe_id s \<and> s \<noteq> [] \<and> set s \<subseteq> set digits \<longrightarrow> parseInt s = Fin (of_int (id_value s))"
    using parseInt_exact by blast
  show ?thesis
    by (rule conjI [OF parseArticles_distinct conjI [OF parseArticles_first conjI [OF c
          conjI [OF d conjI [OF e conjI [OF f g]]]]]])
qed

lemma sample_values:
  "parseInt ''123'' = Fin 123" "parseInt ''98'' = Fin 98"
  "id_value ''123'' = 123" "id_value ''98'' = 98"
  by code_simp+

lemma sample_news_parse:
  "parseArticles sample_news_page =
     [\<lparr>id_str = ''123'', title = ''Seminar'',
        url = ''https://www.aktuaris.or.id/page/news_detail/123/seminar''\<rparr>,
      \<lparr>id_str = ''98'', title = ''Ujian Periode III'',
        url = ''https://www.aktuaris.or.id/page/news_detail/98/ujian-periode-iii''\<rparr>]"
  by code_simp

lemma sample_news_safe: "safe_ids sample_news_page"
  by code_simp

theorem parseArticles_unique_descending_witness:
  "safe_ids sample_news_page
   \<and> inj_on id_value (id_str ` set (parseArticles sample_news_page))
   \<and> map id_str (parseArticles sample_news_page) = [''123'', ''98'']
   \<and> map title (parseArticles sample_news_page) = [''Seminar'', ''Ujian Periode III'']
   \<and> sorted_wrt (\<lambda>a b. id_value (id_str b) < id_value (id_str a)) (parseArticles sample_news_page)
   \<and> safe_id ''123'' \<and> parseInt ''123'' = Fin 123"
proof -
  have i: "inj_on id_value (id_str ` set (parseArticles sample_news_page))"
    by (simp add: sample_news_parse sample_values)
  have s: "safe_id ''123''" by (simp add: safe_id_def sample_values)
  have d: "set ''123'' \<subseteq> set digits" by (simp add: digits_def)
  show ?thesis
    using parseArticles_unique_descending [of sample_news_page
        "hd (parseArticles sample_news_page)" "''123''"]
      i sample_news_safe s d
    by (simp add: sample_news_parse sample_values)
qed

theorem parseArticles_strict_counterexample:
  "map id_str (parseArticles leading_zero_page) = [''7'', ''07'']
   \<and> id_value ''7'' = id_value ''07''
   \<and> parseInt ''7'' = parseInt ''07''
   \<and> \<not> sorted_wrt (\<lambda>a b. id_value (id_str b) < id_value (id_str a)) (parseArticles leading_zero_page)"
proof -
  have p: "parseArticles leading_zero_page =
     [\<lparr>id_str = ''7'', title = ''Tujuh'', url = ''https://www.aktuaris.or.id/page/news_detail/7/tujuh''\<rparr>,
      \<lparr>id_str = ''07'', title = ''Nol tujuh'', url = ''https://www.aktuaris.or.id/page/news_detail/07/nol-tujuh''\<rparr>]"
    by code_simp
  have v: "id_value ''7'' = 7" "id_value ''07'' = 7" "parseInt ''7'' = Fin 7" "parseInt ''07'' = Fin 7"
    by code_simp+
  show ?thesis by (simp add: p v)
qed

section \<open>Backfill\<close>




























section \<open>Authenticated fetch\<close>

lemma getSession_counts:
  assumes "getSession env w uid email password = (c, w')"
  shows "gets w' = gets w"
    and "posts w' = (if isSessionValid (userSessions w) (clock w) uid then posts w else posts w + 1)"
  using assms
  by (auto simp: getSession_def login_io_def Let_def split: if_splits option.splits prod.splits)

lemma getSession_cached:
  assumes "isSessionValid (userSessions w) (clock w) uid"
  shows "\<exists>s. userSessions w uid = Some s \<and> getSession env w uid email password = (Some (cookie s), w)"
  using assms by (auto simp: getSession_def isSessionValid_def split: option.splits)

lemma getSession_login:
  assumes "\<not> isSessionValid (userSessions w) (clock w) uid"
    and "getSession env w uid email password = (c, w')"
  shows "c = map_option cookie
           (login (clock w + int (elapsed env (posts w + gets w))) (login_reply_of env (posts w) email password))"
  using assms
  by (auto simp: getSession_def login_io_def Let_def split: option.splits prod.splits)

lemma login_cookie_nonempty: "login now r = Some s \<Longrightarrow> cookie s \<noteq> []"
  by (cases r) (auto simp: login_def split: if_splits option.splits dest: extractSession_sound)

lemma fetchExamPage_io_counts:
  assumes "fetchExamPage_io env w c = (page, w')"
  shows "gets w' = gets w + 1" and "posts w' = posts w"
    and "userSessions w' = userSessions w"
    and "page = fetchExamPage (page_reply_of env (gets w) c)"
  using assms by (auto simp: fetchExamPage_io_def Let_def)

lemma clearSession_counts:
  "gets (clearSession w uid) = gets w" "posts (clearSession w uid) = posts w"
  "\<not> isSessionValid (userSessions (clearSession w uid)) t uid"
  by (simp_all add: clearSession_def isSessionValid_def)

lemma redirect_no_html: "redirects_to_login r \<Longrightarrow> no_html (fetchExamPage r)"
  by (auto simp: redirects_to_login_def fetchExamPage_def no_html_def
      split: page_reply.splits option.splits)

text \<open>The run of one call, stage by stage.\<close>

lemma fetchExamListForUser_run:
  obtains
    (no_session) w1 c where
      "getSession env w uid email password = (c, w1)" "no_cookie c"
      "fetchExamListForUser env w uid email password = (Inr None, w1)"
  | (first_try) w1 c w2 page where
      "getSession env w uid email password = (c, w1)" "\<not> no_cookie c"
      "fetchExamPage_io env w1 (the c) = (page, w2)" "\<not> no_html page"
      "fetchExamListForUser env w uid email password = (map_sum id (\<lambda>h. Some (parseExamTable h)) (load (the page)), w2)"
  | (no_second_session) w1 c w2 page w4 c' where
      "getSession env w uid email password = (c, w1)" "\<not> no_cookie c"
      "fetchExamPage_io env w1 (the c) = (page, w2)" "no_html page"
      "getSession env (clearSession w2 uid) uid email password = (c', w4)" "no_cookie c'"
      "fetchExamListForUser env w uid email password = (Inr None, w4)"
  | (retry) w1 c w2 page w4 c' w5 page' where
      "getSession env w uid email password = (c, w1)" "\<not> no_cookie c"
      "fetchExamPage_io env w1 (the c) = (page, w2)" "no_html page"
      "getSession env (clearSession w2 uid) uid email password = (c', w4)" "\<not> no_cookie c'"
      "fetchExamPage_io env w4 (the c') = (page', w5)"
      "fetchExamListForUser env w uid email password
         = (if no_html page' then Inr None
            else map_sum id (\<lambda>h. Some (parseExamTable h)) (load (the page')), w5)"
proof -
  obtain c w1 where g1: "getSession env w uid email password = (c, w1)"
    by (cases "getSession env w uid email password")
  show thesis
  proof (cases "no_cookie c")
    case True
    with g1 have "fetchExamListForUser env w uid email password = (Inr None, w1)"
      by (simp add: fetchExamListForUser_def split: sum.splits)
    with g1 True show thesis by (rule no_session)
  next
    case nc: False
    obtain page w2 where f1: "fetchExamPage_io env w1 (the c) = (page, w2)"
      by (cases "fetchExamPage_io env w1 (the c)")
    show thesis
    proof (cases "no_html page")
      case False
      with g1 nc f1 have "fetchExamListForUser env w uid email password
          = (map_sum id (\<lambda>h. Some (parseExamTable h)) (load (the page)), w2)"
        by (simp add: fetchExamListForUser_def split: sum.splits)
      with g1 nc f1 False show thesis by (rule first_try)
    next
      case nh: True
      obtain c' w4 where g2: "getSession env (clearSession w2 uid) uid email password = (c', w4)"
        by (cases "getSession env (clearSession w2 uid) uid email password")
      show thesis
      proof (cases "no_cookie c'")
        case True
        with g1 nc f1 nh g2 have "fetchExamListForUser env w uid email password = (Inr None, w4)"
          by (simp add: fetchExamListForUser_def Let_def split: sum.splits)
        with g1 nc f1 nh g2 True show thesis by (rule no_second_session)
      next
        case nc2: False
        obtain page' w5 where f2: "fetchExamPage_io env w4 (the c') = (page', w5)"
          by (cases "fetchExamPage_io env w4 (the c')")
        with g1 nc f1 nh g2 nc2 have "fetchExamListForUser env w uid email password
            = (if no_html page' then Inr None
            else map_sum id (\<lambda>h. Some (parseExamTable h)) (load (the page')), w5)"
          by (simp add: fetchExamListForUser_def Let_def split: sum.splits)
        with g1 nc f1 nh g2 nc2 f2 show thesis by (rule retry)
      qed
    qed
  qed
qed

lemma extractCookies_clock:
  "(extractCookies now cs = None) = (extractCookies now' cs = None)"
  by (induction cs) (auto split: option.splits)

lemma login_grants: "login now r \<noteq> None \<longleftrightarrow> grants r"
proof (cases r)
  case (LoginResponse c hs)
  have "(extractSessionFromResponse now hs = None) = (extractSessionFromResponse 0 hs = None)"
    using extractCookies_clock [of now _ 0]
    by (cases hs) (simp_all add: extractSessionFromResponse_def)
  then show ?thesis
    by (simp add: grants_def LoginResponse login_response)
next
  case LoginNoResponse
  then show ?thesis by (simp add: grants_def login_def)
qed

lemma run_bounds:
  "posts w \<le> posts (snd (fetchExamListForUser env w uid email password))
   \<and> posts (snd (fetchExamListForUser env w uid email password)) \<le> posts w + 2
   \<and> gets (snd (fetchExamListForUser env w uid email password)) \<le> gets w + 2"
proof (cases rule: fetchExamListForUser_run [of env w uid email password])
  case (no_session w1 c)
  from getSession_counts [OF no_session(1)] no_session(3) show ?thesis by simp
next
  case (first_try w1 c w2 page)
  from getSession_counts [OF first_try(1)] fetchExamPage_io_counts [OF first_try(3)] first_try(5)
  show ?thesis by simp
next
  case (no_second_session w1 c w2 page w4 c')
  from getSession_counts [OF no_second_session(1)]
    fetchExamPage_io_counts [OF no_second_session(3)]
    getSession_counts [OF no_second_session(5)] clearSession_counts [of w2 uid]
    no_second_session(7)
  show ?thesis by simp
next
  case (retry w1 c w2 page w4 c' w5 page')
  from getSession_counts [OF retry(1)] fetchExamPage_io_counts [OF retry(3)]
    getSession_counts [OF retry(5)] clearSession_counts [of w2 uid]
    fetchExamPage_io_counts [OF retry(7)] retry(8)
  show ?thesis by simp
qed

lemma run_denied:
  assumes "\<forall>k c. redirects_to_login (page_reply_of env k c)"
  shows "fst (fetchExamListForUser env w uid email password) = Inr None"
proof (cases rule: fetchExamListForUser_run [of env w uid email password])
  case (no_session w1 c)
  then show ?thesis by simp
next
  case (first_try w1 c w2 page)
  from fetchExamPage_io_counts(4) [OF first_try(3)] assms redirect_no_html first_try(4)
  show ?thesis by blast
next
  case (no_second_session w1 c w2 page w4 c')
  then show ?thesis by simp
next
  case (retry w1 c w2 page w4 c' w5 page')
  from fetchExamPage_io_counts(4) [OF retry(7)] assms redirect_no_html
  have "no_html page'" by blast
  with retry(8) show ?thesis by simp
qed

lemma run_two_logins:
  assumes red: "\<forall>k c. redirects_to_login (page_reply_of env k c)"
    and inv: "\<not> isSessionValid (userSessions w) (clock w) uid"
    and ok: "grants (login_reply_of env (posts w) email password)"
  shows "posts (snd (fetchExamListForUser env w uid email password)) = posts w + 2"
proof (cases rule: fetchExamListForUser_run [of env w uid email password])
  case (no_session w1 c)
  from ok login_grants obtain s where
    l: "login (clock w + int (elapsed env (posts w + gets w)))
          (login_reply_of env (posts w) email password) = Some s"
    by blast
  from getSession_login [OF inv no_session(1)] l have "c = Some (cookie s)" by simp
  with login_cookie_nonempty [OF l] have "\<not> no_cookie c" by (simp add: no_cookie_def)
  with no_session(2) show ?thesis by simp
next
  case (first_try w1 c w2 page)
  from fetchExamPage_io_counts(4) [OF first_try(3)] red redirect_no_html first_try(4)
  show ?thesis by blast
next
  case (no_second_session w1 c w2 page w4 c')
  from getSession_counts [OF no_second_session(1)] inv
    fetchExamPage_io_counts [OF no_second_session(3)]
    getSession_counts [OF no_second_session(5)] clearSession_counts [of w2 uid]
    no_second_session(7)
  show ?thesis by simp
next
  case (retry w1 c w2 page w4 c' w5 page')
  from getSession_counts [OF retry(1)] inv fetchExamPage_io_counts [OF retry(3)]
    getSession_counts [OF retry(5)] clearSession_counts [of w2 uid]
    fetchExamPage_io_counts [OF retry(7)] retry(8)
  show ?thesis by simp
qed

lemma run_one_login:
  assumes red: "\<forall>k c. redirects_to_login (page_reply_of env k c)"
    and val: "isSessionValid (userSessions w) (clock w) uid"
    and ne: "\<forall>s. userSessions w uid = Some s \<longrightarrow> cookie s \<noteq> []"
  shows "posts (snd (fetchExamListForUser env w uid email password)) = posts w + 1"
proof (cases rule: fetchExamListForUser_run [of env w uid email password])
  case (no_session w1 c)
  from getSession_cached [OF val, of env email password] no_session(1,2) ne
  show ?thesis by (auto simp: no_cookie_def)
next
  case (first_try w1 c w2 page)
  from fetchExamPage_io_counts(4) [OF first_try(3)] red redirect_no_html first_try(4)
  show ?thesis by blast
next
  case (no_second_session w1 c w2 page w4 c')
  from getSession_counts [OF no_second_session(1)] val
    fetchExamPage_io_counts [OF no_second_session(3)]
    getSession_counts [OF no_second_session(5)] clearSession_counts [of w2 uid]
    no_second_session(7)
  show ?thesis by simp
next
  case (retry w1 c w2 page w4 c' w5 page')
  from getSession_counts [OF retry(1)] val fetchExamPage_io_counts [OF retry(3)]
    getSession_counts [OF retry(5)] clearSession_counts [of w2 uid]
    fetchExamPage_io_counts [OF retry(7)] retry(8)
  show ?thesis by simp
qed

text \<open>
  Claim C1, as the code has it.  One call of \<open>fetchExamListForUser\<close> sends at most two
  login requests and at most two page requests: the re-authentication and its retry happen
  at most once.  When every page fetch ends on the login page, the call returns null.  In
  that situation the number of login requests is exactly two when the call starts without a
  valid stored session and the site grants the first login, and exactly one (the
  re-authentication) when the call starts with a valid stored session, whose cookie is
  used for the first fetch without logging in.
\<close>

theorem fetchExamListForUser_retry_once:
  "posts (snd (fetchExamListForUser env w uid email password)) \<le> posts w + 2
   \<and> gets (snd (fetchExamListForUser env w uid email password)) \<le> gets w + 2
   \<and> ((\<forall>k c. redirects_to_login (page_reply_of env k c)) \<longrightarrow>
         fst (fetchExamListForUser env w uid email password) = Inr None
         \<and> (\<not> isSessionValid (userSessions w) (clock w) uid
              \<and> grants (login_reply_of env (posts w) email password)
             \<longrightarrow> posts (snd (fetchExamListForUser env w uid email password)) = posts w + 2)
         \<and> (isSessionValid (userSessions w) (clock w) uid
              \<and> (\<forall>s. userSessions w uid = Some s \<longrightarrow> cookie s \<noteq> [])
             \<longrightarrow> posts (snd (fetchExamListForUser env w uid email password)) = posts w + 1))"
proof -
  note b = run_bounds [of w env uid email password]
  have c: "(\<forall>k c. redirects_to_login (page_reply_of env k c)) \<longrightarrow>
         fst (fetchExamListForUser env w uid email password) = Inr None
         \<and> (\<not> isSessionValid (userSessions w) (clock w) uid
              \<and> grants (login_reply_of env (posts w) email password)
             \<longrightarrow> posts (snd (fetchExamListForUser env w uid email password)) = posts w + 2)
         \<and> (isSessionValid (userSessions w) (clock w) uid
              \<and> (\<forall>s. userSessions w uid = Some s \<longrightarrow> cookie s \<noteq> [])
             \<longrightarrow> posts (snd (fetchExamListForUser env w uid email password)) = posts w + 1)"
  proof (intro impI conjI)
    assume r: "\<forall>k c. redirects_to_login (page_reply_of env k c)"
    from run_denied [OF r] show "fst (fetchExamListForUser env w uid email password) = Inr None" .
  next
    assume r: "\<forall>k c. redirects_to_login (page_reply_of env k c)"
      and a: "\<not> isSessionValid (userSessions w) (clock w) uid
              \<and> grants (login_reply_of env (posts w) email password)"
    from run_two_logins [OF r] a
    show "posts (snd (fetchExamListForUser env w uid email password)) = posts w + 2" by blast
  next
    assume r: "\<forall>k c. redirects_to_login (page_reply_of env k c)"
      and a: "isSessionValid (userSessions w) (clock w) uid
              \<and> (\<forall>s. userSessions w uid = Some s \<longrightarrow> cookie s \<noteq> [])"
    from run_one_login [OF r] a
    show "posts (snd (fetchExamListForUser env w uid email password)) = posts w + 1" by blast
  qed
  show ?thesis
    by (rule conjI [OF b [THEN conjunct2, THEN conjunct1] conjI [OF b [THEN conjunct2, THEN conjunct2] c]])
qed

lemma denying_portal_redirects: "\<forall>k c. redirects_to_login (page_reply_of denying_portal k c)"
  by (simp add: denying_portal_def redirects_to_login_def startsWith_def)

lemma denying_portal_grants: "grants (login_reply_of denying_portal k email password)"
proof -
  have "grants (LoginResponse 302 (Some [''ci_session=s3cr3t; path=/'']))" by code_simp
  then show ?thesis by (simp add: denying_portal_def)
qed

lemma fresh_world_invalid: "\<not> isSessionValid (userSessions fresh_world) (clock fresh_world) ''42''"
  by (simp add: fresh_world_def isSessionValid_def)

lemma cached_world_valid:
  "isSessionValid (userSessions cached_world) (clock cached_world) ''42''"
  "\<forall>s. userSessions cached_world ''42'' = Some s \<longrightarrow> cookie s \<noteq> []"
  by (auto simp: cached_world_def isSessionValid_def)

theorem fetchExamListForUser_retry_once_witness:
  "(\<forall>k c. redirects_to_login (page_reply_of denying_portal k c))
   \<and> \<not> isSessionValid (userSessions fresh_world) (clock fresh_world) ''42''
   \<and> grants (login_reply_of denying_portal (posts fresh_world) ''a@b.id'' ''pw'')
   \<and> fst (fetchExamListForUser denying_portal fresh_world ''42'' ''a@b.id'' ''pw'') = Inr None
   \<and> posts (snd (fetchExamListForUser denying_portal fresh_world ''42'' ''a@b.id'' ''pw'')) = 2
   \<and> gets (snd (fetchExamListForUser denying_portal fresh_world ''42'' ''a@b.id'' ''pw'')) \<le> 2
   \<and> fst (fetchExamListForUser null_first_portal fresh_world ''42'' ''a@b.id'' ''pw'')
       = Inr (Some [sample_exam])
   \<and> posts (snd (fetchExamListForUser null_first_portal fresh_world ''42'' ''a@b.id'' ''pw'')) = 2
   \<and> gets (snd (fetchExamListForUser null_first_portal fresh_world ''42'' ''a@b.id'' ''pw'')) = 2"
proof -
  have p: "posts fresh_world = 0" "gets fresh_world = 0" by (simp_all add: fresh_world_def)
  have n1: "fst (fetchExamListForUser null_first_portal fresh_world ''42'' ''a@b.id'' ''pw'')
       = Inr (Some [sample_exam])"
    by code_simp
  have n2: "posts (snd (fetchExamListForUser null_first_portal fresh_world ''42'' ''a@b.id'' ''pw'')) = 2"
    by code_simp
  have n3: "gets (snd (fetchExamListForUser null_first_portal fresh_world ''42'' ''a@b.id'' ''pw'')) = 2"
    by code_simp
  show ?thesis
    using fetchExamListForUser_retry_once [of denying_portal fresh_world "''42''" "''a@b.id''" "''pw''"]
      denying_portal_redirects fresh_world_invalid denying_portal_grants [of "posts fresh_world"]
    by (simp add: p n1 n2 n3)
qed

theorem fetchExamListForUser_two_logins_counterexample:
  "redirects_to_login (page_reply_of denying_portal 0 ''0ldc00k13'')
   \<and> redirects_to_login (page_reply_of denying_portal 1 ''s3cr3t'')
   \<and> fst (fetchExamListForUser denying_portal cached_world ''42'' ''a@b.id'' ''pw'') = Inr None
   \<and> gets (snd (fetchExamListForUser denying_portal cached_world ''42'' ''a@b.id'' ''pw'')) = 2
   \<and> posts (snd (fetchExamListForUser denying_portal cached_world ''42'' ''a@b.id'' ''pw'')) = 1
   \<and> posts (snd (fetchExamListForUser denying_portal cached_world ''42'' ''a@b.id'' ''pw'')) \<noteq> 2"
proof -
  have "fst (fetchExamListForUser denying_portal cached_world ''42'' ''a@b.id'' ''pw'') = Inr None"
    by code_simp
  moreover
  have "gets (snd (fetchExamListForUser denying_portal cached_world ''42'' ''a@b.id'' ''pw'')) = 2"
    by code_simp
  moreover
  have "posts (snd (fetchExamListForUser denying_portal cached_world ''42'' ''a@b.id'' ''pw'')) = 1"
    by code_simp
  ultimately show ?thesis
    using denying_portal_redirects by simp
qed

end
